theory Spec2Isabelle
  imports Main "HOL-Library.Sublist" "HOL-Library.Multiset"
begin

section \<open>Text\<close>

text \<open>
  A Python \<^verbatim>\<open>str\<close> is a sequence of code points. The input text, and with it every token
  and every field, is modelled as a \<open>string\<close>, one \<open>char\<close> per code point: the model
  covers the texts whose code points are below 256. \<^verbatim>\<open>str.strip()\<close> removes the characters
  for which \<^verbatim>\<open>str.isspace\<close> holds; below 256 these are 0x09-0x0D, 0x1C-0x1F, 0x20, 0x85
  and 0xA0. \<^verbatim>\<open>str.upper()\<close> of such a text can leave that range and can be longer than the
  text, so its result, the key of the document, is a list of code points (\<open>ustring\<close>).
\<close>

abbreviation LF :: char where "LF \<equiv> CHR 0x0A"
abbreviation CR :: char where "CR \<equiv> CHR 0x0D"
abbreviation TAB :: char where "TAB \<equiv> CHR 0x09"

definition isspace :: "char \<Rightarrow> bool" where
  "isspace c = (c \<in> set [CHR 0x09, CHR 0x0A, CHR 0x0B, CHR 0x0C, CHR 0x0D,
                          CHR 0x1C, CHR 0x1D, CHR 0x1E, CHR 0x1F, CHR '' '',
                          CHR 0x85, CHR 0xA0])"

definition strip :: "string \<Rightarrow> string" where
  "strip s = rev (dropWhile isspace (rev (dropWhile isspace s)))"

type_synonym ustring = "nat list"

definition codepoints :: "string \<Rightarrow> ustring" where
  \<comment> \<open>a text as the list of its code points\<close>
  "codepoints s = map of_char s"

definition upper_char :: "char \<Rightarrow> ustring" where
  \<comment> \<open>\<^verbatim>\<open>str.upper()\<close> of one character below 256: the letters a-z and 0xE0-0xFE (but the
      division sign 0xF7) move down by 32; the micro sign 0xB5 becomes U+039C, the sharp s
      0xDF the two letters SS, and 0xFF becomes U+0178; every other character stays\<close>
  "upper_char c =
     (let n = of_char c
      in if (97 \<le> n \<and> n \<le> 122) \<or> (224 \<le> n \<and> n \<le> 254 \<and> n \<noteq> 247) then [n - 32]
         else if n = 181 then [924]
         else if n = 223 then [83, 83]
         else if n = 255 then [376]
         else [n])"

definition upper :: "string \<Rightarrow> ustring" where
  "upper s = concat (map upper_char s)"

section \<open>The lexer rules\<close>

text \<open>
  The lexer is built by \<^verbatim>\<open>ply.lex\<close> from the module's \<^verbatim>\<open>t_\<close> rules. At each position
  it tries one master pattern, the alternation of the rules' patterns: the rules given as
  functions first, in the order they are written (\<^verbatim>\<open>t_COMMENT\<close>, \<^verbatim>\<open>t_newline\<close>,
  \<^verbatim>\<open>t_VALUE\<close>), then the rules given as strings (\<^verbatim>\<open>t_COMMA\<close>, \<^verbatim>\<open>t_SEMICOLON\<close>). The
  first alternative that matches wins, and inside an alternative the repetitions are
  greedy and backtrack. Each pattern is written here as a function that returns the
  matched text and the rest of the input, or \<open>None\<close>.
\<close>

definition hspace :: "char \<Rightarrow> bool" where
  \<comment> \<open>the class \<^verbatim>\<open>[ \t]\<close>\<close>
  "hspace c = (c = CHR '' '' \<or> c = TAB)"

definition cspace :: "char \<Rightarrow> bool" where
  \<comment> \<open>the class \<^verbatim>\<open>[ \t\r\n]\<close>\<close>
  "cspace c = (c = CHR '' '' \<or> c = TAB \<or> c = CR \<or> c = LF)"

definition valuechar :: "char \<Rightarrow> bool" where
  \<comment> \<open>the alternation \<^verbatim>\<open>[^!,;\n]|[*]\<close>: the first class, then the second\<close>
  "valuechar c =
     (if c = CHR ''!'' \<or> c = CHR '','' \<or> c = CHR '';'' \<or> c = LF then c = CHR ''*'' else True)"

definition notnl :: "char \<Rightarrow> bool" where
  \<comment> \<open>what \<^verbatim>\<open>.\<close> matches: any character but the newline\<close>
  "notnl c = (c \<noteq> LF)"

definition re_COMMENT :: "string \<Rightarrow> (string \<times> string) option" where
  \<comment> \<open>\<^verbatim>\<open>[ \t\r\n]*!.*\<close>; \<open>!\<close> is outside the class, so giving back white space never helps\<close>
  "re_COMMENT s =
     (case dropWhile cspace s of
        [] \<Rightarrow> None
      | c # r \<Rightarrow>
          if c = CHR ''!''
          then Some (takeWhile cspace s @ c # takeWhile notnl r, dropWhile notnl r)
          else None)"

fun nl_seqs :: "string \<Rightarrow> string \<times> string" where
  \<comment> \<open>the greedy run \<^verbatim>\<open>(\r?\n)*\<close>: what it takes, and what is left\<close>
  "nl_seqs [] = ([], [])"
| "nl_seqs [c] = (if c = LF then ([c], []) else ([], [c]))"
| "nl_seqs (c # d # r) =
     (if c = LF then (case nl_seqs (d # r) of (m, r') \<Rightarrow> (c # m, r'))
      else if c = CR \<and> d = LF then (case nl_seqs r of (m, r') \<Rightarrow> (c # d # m, r'))
      else ([], c # d # r))"

definition re_newline :: "string \<Rightarrow> (string \<times> string) option" where
  \<comment> \<open>\<^verbatim>\<open>[ \t]*(\r?\n)+\<close>\<close>
  "re_newline s =
     (case nl_seqs (dropWhile hspace s) of
        (m, r) \<Rightarrow> if m = [] then None else Some (takeWhile hspace s @ m, r))"

definition re_VALUE :: "string \<Rightarrow> (string \<times> string) option" where
  \<comment> \<open>\<^verbatim>\<open>[ \t]*([^!,;\n]|[*])+[ \t]*\<close>. When no value character follows the leading
      white space, the pattern backtracks: the group takes the white space itself, which
      the value class contains.\<close>
  "re_VALUE s =
     (let lead = takeWhile hspace s; s1 = dropWhile hspace s;
          body = takeWhile valuechar s1; s2 = dropWhile valuechar s1
      in if body \<noteq> [] then Some (lead @ body @ takeWhile hspace s2, dropWhile hspace s2)
         else if lead \<noteq> [] then Some (lead, s1)
         else None)"

definition re_delim :: "char \<Rightarrow> string \<Rightarrow> (string \<times> string) option" where
  \<comment> \<open>\<^verbatim>\<open>[ \t]*d[ \t]*\<close> for a delimiter \<open>d\<close>\<close>
  "re_delim d s =
     (case dropWhile hspace s of
        [] \<Rightarrow> None
      | c # r \<Rightarrow>
          if c = d then Some (takeWhile hspace s @ c # takeWhile hspace r, dropWhile hspace r)
          else None)"

definition re_COMMA :: "string \<Rightarrow> (string \<times> string) option" where
  "re_COMMA = re_delim (CHR '','')"

definition re_SEMICOLON :: "string \<Rightarrow> (string \<times> string) option" where
  "re_SEMICOLON = re_delim (CHR '';'')"

section \<open>Tokens and errors\<close>

datatype toktype = COMMENT | newline | VALUE | COMMA | SEMICOLON

record LexToken =
  ttype :: toktype
  tvalue :: string
  tlineno :: nat

text \<open>
  Every failure of \<^verbatim>\<open>parse\<close> is a Python \<^verbatim>\<open>SyntaxError\<close>; the three messages of the
  source are three constructors. \<open>IndexError\<close> stands for \<^verbatim>\<open>idfobject[0]\<close> on an empty
  list.
\<close>

datatype error =
    IllegalCharacter char nat      \<comment> \<open>\<^verbatim>\<open>Illegal character 'c' at line n of input\<close>\<close>
  | SyntaxErrorAtToken string nat  \<comment> \<open>\<^verbatim>\<open>Syntax error at token 'v' on line n\<close>\<close>
  | SyntaxErrorAtEOF               \<comment> \<open>\<^verbatim>\<open>Syntax error at EOF\<close>\<close>
  | IndexError

text \<open>
  A rule function gets the token, whose \<open>tlineno\<close> is a copy of the lexer's line counter,
  and the lexer's line counter itself (\<^verbatim>\<open>t.lexer.lineno\<close>). It gives back the token it
  returns, if any, and the lexer's line counter.
\<close>

definition t_COMMENT :: "LexToken \<Rightarrow> nat \<Rightarrow> LexToken option \<times> nat" where
  \<comment> \<open>\<^verbatim>\<open>t.lineno += len(newlines)\<close> changes the token, which is then dropped\<close>
  "t_COMMENT t lexer_lineno =
     (let newlines = filter (\<lambda>n. n = LF) (tvalue t);
          t' = t\<lparr>tlineno := tlineno t + length newlines\<rparr>
      in (None, lexer_lineno))"

definition t_newline :: "LexToken \<Rightarrow> nat \<Rightarrow> LexToken option \<times> nat" where
  \<comment> \<open>\<^verbatim>\<open>t.lexer.lineno += len(t.value)\<close>\<close>
  "t_newline t lexer_lineno = (None, lexer_lineno + length (tvalue t))"

definition t_VALUE :: "LexToken \<Rightarrow> nat \<Rightarrow> LexToken option \<times> nat" where
  "t_VALUE t lexer_lineno = (Some t, lexer_lineno)"

definition t_error :: "string \<Rightarrow> nat \<Rightarrow> error" where
  \<comment> \<open>\<^verbatim>\<open>t.value\<close> is the input from the position on; \<^verbatim>\<open>t.value[0]\<close> its first character\<close>
  "t_error v lexer_lineno =
     (case v of [] \<Rightarrow> IndexError | c # _ \<Rightarrow> IllegalCharacter c lexer_lineno)"

definition lexre :: "string \<Rightarrow> (toktype \<times> string \<times> string) option" where
  \<comment> \<open>the master pattern: the rule that matches, its text, the rest of the input\<close>
  "lexre s =
     (case re_COMMENT s of Some (m, r) \<Rightarrow> Some (COMMENT, m, r) | None \<Rightarrow>
      case re_newline s of Some (m, r) \<Rightarrow> Some (newline, m, r) | None \<Rightarrow>
      case re_VALUE s of Some (m, r) \<Rightarrow> Some (VALUE, m, r) | None \<Rightarrow>
      case re_COMMA s of Some (m, r) \<Rightarrow> Some (COMMA, m, r) | None \<Rightarrow>
      case re_SEMICOLON s of Some (m, r) \<Rightarrow> Some (SEMICOLON, m, r) | None \<Rightarrow> None)"

definition lexfunc :: "toktype \<Rightarrow> LexToken \<Rightarrow> nat \<Rightarrow> LexToken option \<times> nat" where
  \<comment> \<open>the function of a rule; a rule given as a string returns its token unchanged\<close>
  "lexfunc ty t lexer_lineno =
     (case ty of
        COMMENT \<Rightarrow> t_COMMENT t lexer_lineno
      | newline \<Rightarrow> t_newline t lexer_lineno
      | VALUE \<Rightarrow> t_VALUE t lexer_lineno
      | COMMA \<Rightarrow> (Some t, lexer_lineno)
      | SEMICOLON \<Rightarrow> (Some t, lexer_lineno))"

lemma nl_seqs_split: "nl_seqs s = (m, r) \<Longrightarrow> s = m @ r"
  by (induction s arbitrary: m r rule: nl_seqs.induct) (auto split: if_splits prod.splits)

lemma re_COMMENT_split:
  assumes "re_COMMENT s = Some (m, r)"
  shows "s = m @ r \<and> m \<noteq> []"
proof (cases "dropWhile cspace s")
  case Nil
  with assms show ?thesis by (simp add: re_COMMENT_def)
next
  case (Cons c r0)
  with assms have m: "m = takeWhile cspace s @ c # takeWhile notnl r0"
    and r: "r = dropWhile notnl r0"
    by (auto simp: re_COMMENT_def split: if_splits)
  have "s = takeWhile cspace s @ c # r0"
    using Cons takeWhile_dropWhile_id [of cspace s] by simp
  also have "c # r0 = c # takeWhile notnl r0 @ dropWhile notnl r0"
    by simp
  finally show ?thesis using m r by simp
qed

lemma re_newline_split:
  assumes "re_newline s = Some (m, r)"
  shows "s = m @ r \<and> m \<noteq> []"
proof -
  obtain m0 r0 where n: "nl_seqs (dropWhile hspace s) = (m0, r0)"
    by (cases "nl_seqs (dropWhile hspace s)")
  with assms have m: "m = takeWhile hspace s @ m0" and r: "r = r0" and "m0 \<noteq> []"
    by (auto simp: re_newline_def split: if_splits)
  moreover have "dropWhile hspace s = m0 @ r0"
    using n by (rule nl_seqs_split)
  moreover have "s = takeWhile hspace s @ dropWhile hspace s"
    by simp
  ultimately show ?thesis by simp
qed

lemma hspace_valuechar: "hspace c \<Longrightarrow> valuechar c"
  by (auto simp: hspace_def valuechar_def)

lemma takeWhile_after_dropWhile:
  assumes "\<And>c. P c \<Longrightarrow> Q c"
  shows "takeWhile P (dropWhile Q xs) = []"
proof (cases "dropWhile Q xs")
  case Nil
  then show ?thesis by (simp only: takeWhile.simps)
next
  case (Cons y ys)
  then have "\<not> Q y" using hd_dropWhile [of Q xs] by simp
  then have "\<not> P y" using assms by blast
  then show ?thesis by (simp add: Cons)
qed

lemma re_delim_split:
  assumes "re_delim d s = Some (m, r)"
  shows "s = m @ r \<and> m \<noteq> []"
proof (cases "dropWhile hspace s")
  case Nil
  with assms show ?thesis by (simp add: re_delim_def)
next
  case (Cons c r0)
  with assms have m: "m = takeWhile hspace s @ c # takeWhile hspace r0"
    and r: "r = dropWhile hspace r0"
    by (auto simp: re_delim_def split: if_splits)
  have "s = takeWhile hspace s @ c # r0"
    using Cons takeWhile_dropWhile_id [of hspace s] by simp
  also have "c # r0 = c # takeWhile hspace r0 @ dropWhile hspace r0"
    by simp
  finally show ?thesis using m r by simp
qed

lemma re_VALUE_eq:
  "re_VALUE s =
     (if takeWhile valuechar s = [] then None
      else Some (takeWhile valuechar s, dropWhile valuechar s))"
proof -
  define lead where "lead = takeWhile hspace s"
  define s1 where "s1 = dropWhile hspace s"
  have s: "s = lead @ s1" by (simp add: lead_def s1_def)
  have lead: "\<forall>c\<in>set lead. valuechar c"
    unfolding lead_def by (auto dest: set_takeWhileD hspace_valuechar)
  have tw: "takeWhile valuechar s = lead @ takeWhile valuechar s1"
    using lead by (simp add: s)
  have dw: "dropWhile valuechar s = dropWhile valuechar s1"
    using lead by (simp add: s)
  have t0: "takeWhile hspace (dropWhile valuechar s1) = []"
    by (rule takeWhile_after_dropWhile) (rule hspace_valuechar)
  have d0: "dropWhile hspace (dropWhile valuechar s1) = dropWhile valuechar s1"
    using t0 takeWhile_dropWhile_id [of hspace "dropWhile valuechar s1"] by simp
  have e: "takeWhile valuechar s1 = [] \<Longrightarrow> dropWhile valuechar s1 = s1"
    using takeWhile_dropWhile_id [of valuechar s1] by simp
  show ?thesis
    unfolding re_VALUE_def Let_def lead_def [symmetric] s1_def [symmetric]
    using tw dw t0 d0 e by auto
qed

lemma re_VALUE_split: "re_VALUE s = Some (m, r) \<Longrightarrow> s = m @ r \<and> m \<noteq> []"
  by (auto simp: re_VALUE_eq split: if_splits)

lemma lexre_split:
  assumes "lexre s = Some (ty, m, r)"
  shows "s = m @ r \<and> m \<noteq> []"
proof (cases "re_COMMENT s")
  case (Some a)
  with assms show ?thesis
    using re_COMMENT_split [of s m r] by (cases a) (simp add: lexre_def)
next
  case c: None
  show ?thesis
  proof (cases "re_newline s")
    case (Some a)
    with assms c show ?thesis
      using re_newline_split [of s m r] by (cases a) (simp add: lexre_def)
  next
    case n: None
    show ?thesis
    proof (cases "re_VALUE s")
      case (Some a)
      with assms c n show ?thesis
        using re_VALUE_split [of s m r] by (cases a) (simp add: lexre_def)
    next
      case v: None
      show ?thesis
      proof (cases "re_COMMA s")
        case (Some a)
        with assms c n v show ?thesis
          using re_delim_split [of "CHR '',''" s m r]
          by (cases a) (simp add: lexre_def re_COMMA_def)
      next
        case k: None
        show ?thesis
        proof (cases "re_SEMICOLON s")
          case (Some a)
          with assms c n v k show ?thesis
            using re_delim_split [of "CHR '';''" s m r]
            by (cases a) (simp add: lexre_def re_SEMICOLON_def)
        next
          case None
          with assms c n v k show ?thesis by (simp add: lexre_def)
        qed
      qed
    qed
  qed
qed

lemma lexre_shorter: "lexre s = Some (ty, m, r) \<Longrightarrow> length r < length s"
  using lexre_split [of s ty m r] by (cases m) auto

text \<open>
  \<^verbatim>\<open>Lexer.token()\<close> is called by the parser once per token. The list below holds the
  results of the successive calls from a position on, up to the end of the input or to
  the call in which \<^verbatim>\<open>t_error\<close> raises (the \<open>Inl\<close> that then ends the list). A match
  whose rule returns nothing is skipped inside the call.
\<close>

function lexer_tokens :: "nat \<Rightarrow> string \<Rightarrow> (error + LexToken) list" where
  "lexer_tokens lineno s =
     (if s = [] then []
      else case lexre s of
        None \<Rightarrow> [Inl (t_error s lineno)]
      | Some (ty, m, r) \<Rightarrow>
          (case lexfunc ty \<lparr>ttype = ty, tvalue = m, tlineno = lineno\<rparr> lineno of
             (None, lineno') \<Rightarrow> lexer_tokens lineno' r
           | (Some t, lineno') \<Rightarrow> Inr t # lexer_tokens lineno' r))"
  by pat_completeness auto
termination lexer_tokens
proof (relation "measure (\<lambda>(lineno, s). length s)")
  show "wf (measure (\<lambda>(lineno, s). length s))" by simp
next
  fix lineno :: nat and s x2 ty y m r and lineno' :: nat
  assume "lexre s = Some x2" "(ty, y) = x2" "(m, r) = y"
  then have "lexre s = Some (ty, m, r)" by simp
  then show "((lineno', r), lineno, s) \<in> measure (\<lambda>(lineno, s). length s)"
    by (simp add: lexre_shorter)
next
  fix lineno :: nat and s x2 ty y m r and lineno' :: nat
  assume "lexre s = Some x2" "(ty, y) = x2" "(m, r) = y"
  then have "lexre s = Some (ty, m, r)" by simp
  then show "((lineno', r), lineno, s) \<in> measure (\<lambda>(lineno, s). length s)"
    by (simp add: lexre_shorter)
qed

declare lexer_tokens.simps [simp del]

section \<open>The grammar\<close>

text \<open>
  The semantic actions of the grammar rules. \<open>p1\<close>, \<open>p2\<close>, \<open>p3\<close> are the values
  \<^verbatim>\<open>p[1]\<close>, \<^verbatim>\<open>p[2]\<close>, \<^verbatim>\<open>p[3]\<close> of the rule's symbols; the result is \<^verbatim>\<open>p[0]\<close>.
\<close>

type_synonym idfobj = "string list"
type_synonym document = "(ustring \<times> idfobj list) list"

definition p_idfobjectlist :: "idfobj \<Rightarrow> idfobj list" where
  "p_idfobjectlist p1 = [p1]"

definition p_idfobjectlist_multiple :: "idfobj \<Rightarrow> idfobj list \<Rightarrow> idfobj list" where
  "p_idfobjectlist_multiple p1 p2 = [p1] @ p2"

definition p_idfobject :: "string \<Rightarrow> idfobj" where
  "p_idfobject p1 = [p1]"

definition p_idfobject_with_values :: "string \<Rightarrow> string list \<Rightarrow> idfobj" where
  "p_idfobject_with_values p1 p3 = [p1] @ p3"

definition p_objectname :: "string \<Rightarrow> string" where
  "p_objectname p1 = strip p1"

definition p_valuelist :: "string \<Rightarrow> string list" where
  "p_valuelist p1 = [strip p1]"

definition p_valuelist_multiple :: "string \<Rightarrow> string list \<Rightarrow> string list" where
  "p_valuelist_multiple p1 p3 = [strip p1] @ p3"

definition p_error :: "LexToken option \<Rightarrow> error" where
  "p_error p =
     (case p of
        Some t \<Rightarrow> SyntaxErrorAtToken (tvalue t) (tlineno t)
      | None \<Rightarrow> SyntaxErrorAtEOF)"

text \<open>
  The dictionary \<^verbatim>\<open>result\<close> of \<^verbatim>\<open>p_idffile\<close> is a list of keys with their values, in the
  order in which the keys were inserted, as a Python \<^verbatim>\<open>dict\<close> keeps them.
  \<open>setdefault_append result k x\<close> is \<^verbatim>\<open>result.setdefault(k, []).append(x)\<close>.
\<close>

fun setdefault_append :: "document \<Rightarrow> ustring \<Rightarrow> idfobj \<Rightarrow> document" where
  "setdefault_append [] k x = [(k, [x])]"
| "setdefault_append ((k', xs) # result) k x =
     (if k' = k then (k', xs @ [x]) # result
      else (k', xs) # setdefault_append result k x)"

fun p_idffile_loop :: "document \<Rightarrow> idfobj list \<Rightarrow> error + document" where
  "p_idffile_loop result [] = Inr result"
| "p_idffile_loop result (idfobject # rest) =
     (case idfobject of
        [] \<Rightarrow> Inl IndexError
      | name # _ \<Rightarrow> p_idffile_loop (setdefault_append result (upper name) idfobject) rest)"

definition p_idffile :: "idfobj list \<Rightarrow> error + document" where
  "p_idffile p1 = p_idffile_loop [] p1"

text \<open>
  The parser is the LALR(1) automaton that \<^verbatim>\<open>ply.yacc\<close> builds from the rules
  \<^verbatim>\<open>
  idffile       : idfobjectlist
  idfobjectlist : idfobject | idfobject idfobjectlist
  idfobject     : objectname SEMICOLON | objectname COMMA valuelist SEMICOLON
  objectname    : VALUE
  valuelist     : VALUE | VALUE COMMA valuelist
  \<close>
  The grammar has no conflict, and after every shift the automaton is in a state that
  needs the next token to choose its action, so it asks the lexer for one token at a time
  and stops at the first token that no sentence continues: there it calls \<^verbatim>\<open>p_error\<close>
  with that token, or with \<^verbatim>\<open>None\<close> at the end of the input, and \<^verbatim>\<open>p_error\<close> raises. An
  error raised by the lexer while the parser asks for a token ends the parse as well.
  The functions below follow the rules, one function per nonterminal with one token of
  lookahead, over the results of the lexer's calls; they run the actions at the
  reductions.
\<close>

type_synonym lexitems = "(error + LexToken) list"

fun valuelist :: "lexitems \<Rightarrow> error + (string list \<times> lexitems)" where
  "valuelist [] = Inl (p_error None)"
| "valuelist (Inl e # ts) = Inl e"
| "valuelist [Inr t] =
     (if ttype t = VALUE then Inl (p_error None) else Inl (p_error (Some t)))"
| "valuelist (Inr t # Inl e # ts) =
     (if ttype t = VALUE then Inl e else Inl (p_error (Some t)))"
| "valuelist (Inr t # Inr u # ts) =
     (if ttype t \<noteq> VALUE then Inl (p_error (Some t))
      else if ttype u = COMMA then
        (case valuelist ts of
           Inl e \<Rightarrow> Inl e
         | Inr (p3, rest) \<Rightarrow> Inr (p_valuelist_multiple (tvalue t) p3, rest))
      else if ttype u = SEMICOLON then Inr (p_valuelist (tvalue t), Inr u # ts)
      else Inl (p_error (Some u)))"

fun expect_SEMICOLON :: "lexitems \<Rightarrow> error + lexitems" where
  "expect_SEMICOLON [] = Inl (p_error None)"
| "expect_SEMICOLON (Inl e # ts) = Inl e"
| "expect_SEMICOLON (Inr t # ts) =
     (if ttype t = SEMICOLON then Inr ts else Inl (p_error (Some t)))"

fun idfobject :: "lexitems \<Rightarrow> error + (idfobj \<times> lexitems)" where
  "idfobject [] = Inl (p_error None)"
| "idfobject (Inl e # ts) = Inl e"
| "idfobject [Inr t] =
     (if ttype t = VALUE then Inl (p_error None) else Inl (p_error (Some t)))"
| "idfobject (Inr t # Inl e # ts) =
     (if ttype t = VALUE then Inl e else Inl (p_error (Some t)))"
| "idfobject (Inr t # Inr u # ts) =
     (if ttype t \<noteq> VALUE then Inl (p_error (Some t))
      else if ttype u = SEMICOLON then Inr (p_idfobject (p_objectname (tvalue t)), ts)
      else if ttype u = COMMA then
        (case valuelist ts of
           Inl e \<Rightarrow> Inl e
         | Inr (p3, rest) \<Rightarrow>
             (case expect_SEMICOLON rest of
                Inl e \<Rightarrow> Inl e
              | Inr rest' \<Rightarrow>
                  Inr (p_idfobject_with_values (p_objectname (tvalue t)) p3, rest')))
      else Inl (p_error (Some u)))"

lemma valuelist_shorter: "valuelist ts = Inr (vs, rest) \<Longrightarrow> length rest < length ts"
  by (induction ts arbitrary: vs rest rule: valuelist.induct)
     (auto split: if_splits sum.splits prod.splits)

lemma expect_SEMICOLON_shorter: "expect_SEMICOLON ts = Inr rest \<Longrightarrow> length rest < length ts"
  by (cases ts rule: expect_SEMICOLON.cases) (auto split: if_splits)

lemma idfobject_shorter:
  assumes "idfobject ts = Inr (x, rest)"
  shows "length rest < length ts"
proof (cases ts rule: idfobject.cases)
  case (5 t u ts')
  show ?thesis
  proof (cases "ttype t = VALUE \<and> ttype u = COMMA")
    case False
    with assms 5 show ?thesis by (auto split: if_splits)
  next
    case True
    with assms 5 obtain p3 r1 where v: "valuelist ts' = Inr (p3, r1)"
      and e: "expect_SEMICOLON r1 = Inr rest"
      by (auto split: sum.splits prod.splits)
    from valuelist_shorter [OF v] expect_SEMICOLON_shorter [OF e] 5
    show ?thesis by simp
  qed
qed (use assms in \<open>auto split: if_splits\<close>)

function idfobjectlist :: "lexitems \<Rightarrow> error + idfobj list" where
  "idfobjectlist ts =
     (case idfobject ts of
        Inl e \<Rightarrow> Inl e
      | Inr (p1, rest) \<Rightarrow>
          if rest = [] then Inr (p_idfobjectlist p1)
          else (case idfobjectlist rest of
                  Inl e \<Rightarrow> Inl e
                | Inr p2 \<Rightarrow> Inr (p_idfobjectlist_multiple p1 p2)))"
  by pat_completeness auto
termination idfobjectlist
proof (relation "measure length")
  show "wf (measure length)" by simp
next
  fix ts :: lexitems and b x y
  assume "idfobject ts = Inr b" "(x, y) = b"
  then have "idfobject ts = Inr (x, y)" by simp
  then show "(y, ts) \<in> measure length"
    by (simp add: idfobject_shorter)
qed

declare idfobjectlist.simps [simp del]

definition idffile :: "lexitems \<Rightarrow> error + document" where
  "idffile ts = (case idfobjectlist ts of Inl e \<Rightarrow> Inl e | Inr p1 \<Rightarrow> p_idffile p1)"

text \<open>
  \<^verbatim>\<open>parse\<close> makes a new lexer, whose line counter starts at 1, and runs the parser on
  the text.
\<close>

definition parse :: "string \<Rightarrow> error + document" where
  "parse idf_text = idffile (lexer_tokens 1 idf_text)"

section \<open>Notions used to state the properties\<close>

subsection \<open>Input texts\<close>

text \<open>
  A field as it can be written and read back: not empty, without \<open>!\<close>, comma, semicolon
  or newline, and without white space at either end.
\<close>

definition wf_field :: "string \<Rightarrow> bool" where
  "wf_field v =
     (v \<noteq> [] \<and> CHR ''!'' \<notin> set v \<and> CHR '','' \<notin> set v \<and> CHR '';'' \<notin> set v \<and> LF \<notin> set v
      \<and> \<not> isspace (hd v) \<and> \<not> isspace (last v))"

definition delimiter :: "char \<Rightarrow> bool" where
  "delimiter d = (d = CHR '','' \<or> d = CHR '';'')"

text \<open>
  The serialisation of the round-trip law: an object is written \<^verbatim>\<open>name, v1, ..., vn;\<close>
  (\<^verbatim>\<open>", ".join(obj) + ";"\<close>), and the objects are joined by newlines.
\<close>

fun join :: "'a list \<Rightarrow> 'a list list \<Rightarrow> 'a list" where
  "join sep [] = []"
| "join sep [x] = x"
| "join sep (x # y # ys) = x @ sep @ join sep (y # ys)"

definition serialize_object :: "idfobj \<Rightarrow> string" where
  "serialize_object x = join '', '' x @ '';''"

definition serialize :: "idfobj list \<Rightarrow> string" where
  "serialize objs = join [LF] (map serialize_object objs)"

definition serialize_document :: "document \<Rightarrow> string" where
  "serialize_document D = serialize (concat (map snd D))"

definition no_empty_field :: "document \<Rightarrow> bool" where
  "no_empty_field D = list_all (\<lambda>e. list_all (\<lambda>x. list_all (\<lambda>v. v \<noteq> []) x) (snd e)) D"

text \<open>
  Padded texts. A padded field is a field with the blanks written before and after it; a
  padded object is its padded fields, separated by commas and closed by a semicolon, with
  the blanks that follow the semicolon and the number of newlines after them.
\<close>

type_synonym pfield = "string \<times> string \<times> string"
type_synonym pobject = "pfield list \<times> string \<times> nat"

definition field_ok :: "pfield \<Rightarrow> bool" where
  "field_ok f = (case f of (l, v, r) \<Rightarrow> list_all hspace l \<and> wf_field v \<and> list_all hspace r)"

definition object_ok :: "pobject \<Rightarrow> bool" where
  "object_ok x = (case x of (fs, t, n) \<Rightarrow> fs \<noteq> [] \<and> list_all field_ok fs \<and> list_all hspace t)"

fun fields_text :: "pfield list \<Rightarrow> string" where
  "fields_text [] = []"
| "fields_text [(l, v, r)] = l @ v @ r"
| "fields_text ((l, v, r) # f # fs) = l @ v @ r @ '','' @ fields_text (f # fs)"

definition object_text :: "pobject \<Rightarrow> string" where
  "object_text x = (case x of (fs, t, n) \<Rightarrow> fields_text fs @ '';'' @ t @ replicate n LF)"

definition doc_text :: "pobject list \<Rightarrow> string" where
  "doc_text xs = concat (map object_text xs)"

definition field_value :: "pfield \<Rightarrow> string" where
  "field_value f = fst (snd f)"

definition fields_of :: "pobject \<Rightarrow> idfobj" where
  "fields_of x = map field_value (fst x)"


text \<open>The serialisation as a padded text: one blank after each comma.\<close>

definition plain_fields :: "idfobj \<Rightarrow> pfield list" where
  "plain_fields x =
     (case x of [] \<Rightarrow> [] | n # vs \<Rightarrow> ([], n, []) # map (\<lambda>v. ('' '', v, [])) vs)"

fun plain_objects :: "idfobj list \<Rightarrow> pobject list" where
  "plain_objects [] = []"
| "plain_objects [x] = [(plain_fields x, [], 0)]"
| "plain_objects (x # y # ys) = (plain_fields x, [], 1) # plain_objects (y # ys)"

subsection \<open>Documents\<close>

text \<open>
  The key of an object, the keys of a list in the order of their first occurrence, and
  the aggregation of \<^verbatim>\<open>p_idffile\<close> as a fold. A document is \<open>grouped\<close> when its keys are
  distinct and every key holds a non-empty list of non-empty objects of that key.
\<close>

definition objkey :: "idfobj \<Rightarrow> ustring" where
  "objkey x = upper (hd x)"

fun first_occurrences :: "'a list \<Rightarrow> 'a list" where
  "first_occurrences [] = []"
| "first_occurrences (x # xs) = x # removeAll x (first_occurrences xs)"

definition aggregate :: "idfobj list \<Rightarrow> document" where
  "aggregate objs = foldl (\<lambda>result x. setdefault_append result (objkey x) x) [] objs"

definition grouped :: "document \<Rightarrow> bool" where
  "grouped D =
     (distinct (map fst D) \<and>
      list_all (\<lambda>e. snd e \<noteq> [] \<and> list_all (\<lambda>x. x \<noteq> [] \<and> objkey x = fst e) (snd e)) D)"

subsection \<open>Token sequences\<close>

text \<open>
  The token types of one object, \<^verbatim>\<open>VALUE (COMMA VALUE)* SEMICOLON\<close>, and of an object
  that is not finished yet (a proper prefix of the former). The objects of a token
  sequence are its groups up to each semicolon; the fields of a group are its stripped
  \<open>VALUE\<close> tokens.
\<close>

fun object_pat :: "toktype list \<Rightarrow> bool" where
  "object_pat (a # b # r) =
     (a = VALUE \<and> (if b = SEMICOLON then r = [] else b = COMMA \<and> object_pat r))"
| "object_pat _ = False"

fun partial_pat :: "toktype list \<Rightarrow> bool" where
  "partial_pat [] = True"
| "partial_pat [a] = (a = VALUE)"
| "partial_pat (a # b # r) = (a = VALUE \<and> b = COMMA \<and> partial_pat r)"

definition is_group :: "LexToken list \<Rightarrow> bool" where
  "is_group g = object_pat (map ttype g)"

definition object_of :: "LexToken list \<Rightarrow> idfobj" where
  "object_of g = map (\<lambda>t. strip (tvalue t)) (filter (\<lambda>t. ttype t = VALUE) g)"

fun split_objects :: "LexToken list \<Rightarrow> LexToken list list" where
  "split_objects [] = []"
| "split_objects (t # ts) =
     (if ttype t = SEMICOLON then [t] # split_objects ts
      else case split_objects ts of [] \<Rightarrow> [[t]] | g # gs \<Rightarrow> (t # g) # gs)"

definition token_ok :: "LexToken \<Rightarrow> bool" where
  "token_ok t =
     (if ttype t = VALUE then list_all valuechar (tvalue t)
      else ttype t = COMMA \<or> ttype t = SEMICOLON)"

definition is_syntax_error :: "error \<Rightarrow> bool" where
  "is_syntax_error e =
     (case e of SyntaxErrorAtToken v n \<Rightarrow> True | SyntaxErrorAtEOF \<Rightarrow> True | _ \<Rightarrow> False)"

section \<open>Lemmas\<close>

lemma lexer_tokens_Nil: "lexer_tokens ln [] = []"
  by (simp add: lexer_tokens.simps)

lemma lexer_tokens_returned:
  assumes "lexre s = Some (ty, m, r)" and "lexfunc ty \<lparr>ttype = ty, tvalue = m, tlineno = ln\<rparr> ln = (Some t, ln')"
  shows "lexer_tokens ln s = Inr t # lexer_tokens ln' r"
proof -
  from assms(1) have "s \<noteq> []" using lexre_split by fastforce
  with assms show ?thesis by (subst lexer_tokens.simps) simp
qed

lemma lexer_tokens_skipped:
  assumes "lexre s = Some (ty, m, r)" and "lexfunc ty \<lparr>ttype = ty, tvalue = m, tlineno = ln\<rparr> ln = (None, ln')"
  shows "lexer_tokens ln s = lexer_tokens ln' r"
proof -
  from assms(1) have "s \<noteq> []" using lexre_split by fastforce
  with assms show ?thesis by (subst lexer_tokens.simps) simp
qed

lemma nl_seqs_other: "c \<noteq> LF \<Longrightarrow> c \<noteq> CR \<Longrightarrow> nl_seqs (c # r) = ([], c # r)"
  by (cases r) auto

lemma nl_seqs_CR_other: "d \<noteq> LF \<Longrightarrow> nl_seqs (CR # d # r) = ([], CR # d # r)"
  by simp

lemma valuechar_iff:
  "valuechar c \<longleftrightarrow> c \<noteq> CHR ''!'' \<and> c \<noteq> CHR '','' \<and> c \<noteq> CHR '';'' \<and> c \<noteq> LF"
  by (auto simp: valuechar_def)

lemma valuechar_simps:
  "\<not> valuechar (CHR '','')" "\<not> valuechar (CHR '';'')" "\<not> valuechar (CHR ''!'')" "\<not> valuechar LF"
  by (simp_all add: valuechar_iff)

text \<open>A run of value characters before a delimiter is one VALUE token.\<close>

lemma re_COMMENT_value_run:
  assumes "list_all valuechar w" and "delimiter d"
  shows "re_COMMENT (w @ d # X) = None"
proof -
  have "dropWhile cspace (w @ d # X) \<noteq> [] \<and> hd (dropWhile cspace (w @ d # X)) \<noteq> CHR ''!''"
    using assms
  proof (induction w)
    case Nil
    then show ?case by (auto simp: delimiter_def cspace_def)
  next
    case (Cons c w)
    then show ?case by (auto simp: valuechar_iff)
  qed
  then show ?thesis
    by (cases "dropWhile cspace (w @ d # X)") (auto simp: re_COMMENT_def)
qed

lemma nl_seqs_value_run:
  assumes "list_all valuechar w" and "delimiter d"
  shows "fst (nl_seqs (dropWhile hspace (w @ d # X))) = []"
  using assms
proof (induction w)
  case Nil
  then show ?case by (auto simp: delimiter_def hspace_def nl_seqs_other)
next
  case (Cons c w)
  show ?case
  proof (cases "hspace c")
    case True
    with Cons show ?thesis by simp
  next
    case False
    have c: "c \<noteq> LF" using Cons.prems by (auto simp: valuechar_iff)
    obtain e r where e: "w @ d # X = e # r" and "e \<noteq> LF"
      using Cons.prems by (cases w) (auto simp: valuechar_iff delimiter_def)
    with c False show ?thesis by (cases "c = CR") (simp_all add: nl_seqs_other)
  qed
qed

lemma re_newline_value_run:
  assumes "list_all valuechar w" and "delimiter d"
  shows "re_newline (w @ d # X) = None"
  using nl_seqs_value_run [OF assms, of X]
  by (cases "nl_seqs (dropWhile hspace (w @ d # X))") (simp add: re_newline_def)

lemma re_VALUE_value_run:
  assumes "list_all valuechar w" and "delimiter d" and "w \<noteq> []"
  shows "re_VALUE (w @ d # X) = Some (w, d # X)"
proof -
  have d: "\<not> valuechar d" using assms(2) by (auto simp: delimiter_def valuechar_iff)
  have "takeWhile valuechar (w @ d # X) = w" "dropWhile valuechar (w @ d # X) = d # X"
    using assms(1) d by (simp_all add: list_all_iff)
  with assms(3) show ?thesis by (simp add: re_VALUE_eq)
qed

lemma lexre_value_run:
  assumes "list_all valuechar w" and "delimiter d" and "w \<noteq> []"
  shows "lexre (w @ d # X) = Some (VALUE, w, d # X)"
  by (simp add: lexre_def re_COMMENT_value_run [OF assms(1,2)] re_newline_value_run [OF assms(1,2)]
      re_VALUE_value_run [OF assms])

lemma lexer_tokens_value_run:
  assumes "list_all valuechar w" and "delimiter d" and "w \<noteq> []"
  shows "lexer_tokens ln (w @ d # X) =
           Inr \<lparr>ttype = VALUE, tvalue = w, tlineno = ln\<rparr> # lexer_tokens ln (d # X)"
  by (rule lexer_tokens_returned [OF lexre_value_run [OF assms]]) (simp add: lexfunc_def t_VALUE_def)

text \<open>A delimiter is one token, with the blanks that follow it.\<close>

lemma lexre_delimiter:
  assumes "delimiter d"
  shows "lexre (d # X) =
           Some (if d = CHR '','' then COMMA else SEMICOLON, d # takeWhile hspace X, dropWhile hspace X)"
proof -
  have c: "re_COMMENT (d # X) = None"
    using re_COMMENT_value_run [of "[]" d X] assms by simp
  have n: "re_newline (d # X) = None"
    using re_newline_value_run [of "[]" d X] assms by simp
  have v: "re_VALUE (d # X) = None"
    using assms by (auto simp: re_VALUE_eq delimiter_def valuechar_iff)
  have h: "\<not> hspace d" using assms by (auto simp: delimiter_def hspace_def)
  show ?thesis
    using assms h
    by (auto simp: lexre_def c n v re_COMMA_def re_SEMICOLON_def re_delim_def delimiter_def)
qed

lemma lexer_tokens_COMMA:
  "lexer_tokens ln (CHR '','' # X) =
     Inr \<lparr>ttype = COMMA, tvalue = CHR '','' # takeWhile hspace X, tlineno = ln\<rparr>
       # lexer_tokens ln (dropWhile hspace X)"
  by (rule lexer_tokens_returned [where ty = COMMA])
     (simp_all add: lexre_delimiter delimiter_def lexfunc_def)

lemma lexer_tokens_SEMICOLON:
  "lexer_tokens ln (CHR '';'' # X) =
     Inr \<lparr>ttype = SEMICOLON, tvalue = CHR '';'' # takeWhile hspace X, tlineno = ln\<rparr>
       # lexer_tokens ln (dropWhile hspace X)"
  by (rule lexer_tokens_returned [where ty = SEMICOLON])
     (simp_all add: lexre_delimiter delimiter_def lexfunc_def)

lemma hspace_isspace: "hspace c \<Longrightarrow> isspace c"
  by (auto simp: hspace_def isspace_def)

lemma wf_field_valuechar: "wf_field v \<Longrightarrow> list_all valuechar v"
  by (auto simp: wf_field_def list_all_iff valuechar_iff)

lemma hspace_valuechars: "list_all hspace l \<Longrightarrow> list_all valuechar l"
  by (auto simp: list_all_iff hspace_valuechar)

lemma strip_padded:
  assumes "list_all hspace l" and "wf_field v" and "list_all hspace r"
  shows "strip (l @ v @ r) = v"
proof -
  from assms(2) obtain c v' where v: "v = c # v'" and c: "\<not> isspace c"
    by (cases v) (auto simp: wf_field_def)
  have "dropWhile isspace (l @ v @ r) = dropWhile isspace (v @ r)"
    using assms(1) by (intro dropWhile_append2) (auto simp: list_all_iff hspace_isspace)
  also have "\<dots> = v @ r" using v c by simp
  finally have 1: "dropWhile isspace (l @ v @ r) = v @ r" .
  from assms(2) have "rev v \<noteq> []" and "\<not> isspace (hd (rev v))"
    by (auto simp: wf_field_def hd_rev)
  then obtain e w where w: "rev v = e # w" and e: "\<not> isspace e"
    by (cases "rev v") auto
  have "dropWhile isspace (rev r @ rev v) = dropWhile isspace (rev v)"
    using assms(3) by (intro dropWhile_append2) (auto simp: list_all_iff hspace_isspace)
  also have "\<dots> = rev v" using w e by simp
  finally have 2: "dropWhile isspace (rev (v @ r)) = rev v" by simp
  show ?thesis by (simp only: strip_def 1 2 rev_rev_ident)
qed

lemma dropWhile_hspace_padded:
  assumes "list_all hspace l" and "wf_field v"
  shows "dropWhile hspace (l @ v @ X) = v @ X"
proof -
  from assms(2) obtain c v' where v: "v = c # v'" and c: "\<not> hspace c"
    using hspace_isspace by (cases v) (auto simp: wf_field_def)
  have "dropWhile hspace (l @ v @ X) = dropWhile hspace (v @ X)"
    using assms(1) by (intro dropWhile_append2) (auto simp: list_all_iff)
  then show ?thesis using v c by simp
qed

text \<open>Newlines between objects.\<close>

lemma nl_seqs_LF: "nl_seqs (LF # r) = (case nl_seqs r of (m, r') \<Rightarrow> (LF # m, r'))"
  by (cases r) simp_all

lemma nl_seqs_replicate:
  assumes "fst (nl_seqs Y) = []"
  shows "nl_seqs (replicate n LF @ Y) = (replicate n LF, Y)"
proof (induction n)
  case 0
  obtain m r where mr: "nl_seqs Y = (m, r)" by (cases "nl_seqs Y")
  with assms nl_seqs_split [OF mr] show ?case by simp
next
  case (Suc n)
  then show ?case by (simp add: nl_seqs_LF)
qed

lemma re_COMMENT_None_iff:
  "re_COMMENT s = None \<longleftrightarrow> (case dropWhile cspace s of [] \<Rightarrow> True | c # _ \<Rightarrow> c \<noteq> CHR ''!'')"
  by (cases "dropWhile cspace s") (simp_all add: re_COMMENT_def del: dropWhile_eq_Nil_conv)

lemma re_COMMENT_cspace: "cspace c \<Longrightarrow> re_COMMENT (c # s) = None \<longleftrightarrow> re_COMMENT s = None"
  by (simp add: re_COMMENT_None_iff)

lemma re_COMMENT_replicate: "re_COMMENT (replicate n LF @ Y) = None \<longleftrightarrow> re_COMMENT Y = None"
  by (induction n) (simp_all add: re_COMMENT_cspace cspace_def)

lemma lexer_tokens_newlines:
  assumes "re_COMMENT Y = None" and "fst (nl_seqs Y) = []"
  shows "lexer_tokens ln (replicate n LF @ Y) = lexer_tokens (ln + n) Y"
proof (cases n)
  case 0
  then show ?thesis by simp
next
  case (Suc k)
  have h: "\<not> hspace LF" by (simp add: hspace_def)
  have "re_newline (replicate n LF @ Y) = Some (replicate n LF, Y)"
    using Suc h nl_seqs_replicate [OF assms(2), of n] by (simp add: re_newline_def)
  moreover have "re_COMMENT (replicate n LF @ Y) = None"
    using assms(1) by (simp add: re_COMMENT_replicate)
  ultimately have "lexre (replicate n LF @ Y) = Some (newline, replicate n LF, Y)"
    by (simp add: lexre_def)
  then show ?thesis
    by (rule lexer_tokens_skipped) (simp add: lexfunc_def t_newline_def)
qed

lemma nl_seqs_value_run':
  assumes "list_all valuechar w" and "delimiter d"
  shows "fst (nl_seqs (w @ d # X)) = []"
proof (cases "dropWhile hspace (w @ d # X) = w @ d # X")
  case True
  with nl_seqs_value_run [OF assms, of X] show ?thesis by simp
next
  case False
  then obtain c r where "w @ d # X = c # r" and "hspace c"
    by (cases "w @ d # X") (auto split: if_splits)
  then show ?thesis by (auto simp: hspace_def nl_seqs_other)
qed

lemma lexer_tokens_newlines_value_run:
  assumes "list_all valuechar w" and "delimiter d"
  shows "lexer_tokens ln (replicate n LF @ w @ d # X) = lexer_tokens (ln + n) (w @ d # X)"
  by (rule lexer_tokens_newlines [OF re_COMMENT_value_run [OF assms] nl_seqs_value_run' [OF assms]])

lemma lexer_tokens_newlines_end: "lexer_tokens ln (replicate n LF) = []"
  using lexer_tokens_newlines [of "[]" ln n] by (simp add: re_COMMENT_def lexer_tokens_Nil)

lemma field_ok_unpadded: "field_ok (l, v, r) \<Longrightarrow> field_ok ([], v, r)"
  by (simp add: field_ok_def)

lemma padded_value_run: "field_ok (l, v, r) \<Longrightarrow> list_all valuechar (l @ v @ r) \<and> l @ v @ r \<noteq> []"
proof -
  assume "field_ok (l, v, r)"
  then have "list_all hspace l" "wf_field v" "list_all hspace r"
    by (simp_all add: field_ok_def)
  then have "list_all valuechar l" "list_all valuechar v" "list_all valuechar r" "v \<noteq> []"
    by (simp_all add: hspace_valuechars wf_field_valuechar wf_field_def)
  then show ?thesis by simp
qed

lemma fields_text_value_run:
  assumes "field_ok (l, v, r)"
  shows "\<exists>d Z. delimiter d \<and> fields_text ((l, v, r) # fs) @ CHR '';'' # X = (l @ v @ r) @ d # Z"
  by (cases fs) (auto simp: delimiter_def)

lemma dropWhile_hspace_fields_text:
  assumes "field_ok (l, v, r)" and "list_all hspace t"
  shows "dropWhile hspace (t @ fields_text ((l, v, r) # fs) @ X) = fields_text (([], v, r) # fs) @ X"
proof -
  have "fields_text ((l, v, r) # fs) = l @ v @ r @ (if fs = [] then [] else '','' @ fields_text fs)"
    by (cases fs) auto
  moreover have "fields_text (([], v, r) # fs) = v @ r @ (if fs = [] then [] else '','' @ fields_text fs)"
    by (cases fs) auto
  moreover have "list_all hspace (t @ l)" and "wf_field v"
    using assms by (auto simp: field_ok_def)
  then have "dropWhile hspace ((t @ l) @ v @ r @ (if fs = [] then [] else '','' @ fields_text fs) @ X) =
      v @ r @ (if fs = [] then [] else '','' @ fields_text fs) @ X"
    by (rule dropWhile_hspace_padded)
  ultimately show ?thesis by simp
qed

lemma valuelist_fields_text:
  assumes "list_all field_ok (f # fs)"
  shows "valuelist (lexer_tokens ln (fields_text (f # fs) @ CHR '';'' # X)) =
           Inr (map field_value (f # fs), lexer_tokens ln (CHR '';'' # X))"
  using assms
proof (induction fs arbitrary: f)
  case Nil
  obtain l v r where f: "f = (l, v, r)" by (cases f)
  with Nil have ok: "field_ok (l, v, r)" by simp
  have run: "list_all valuechar (l @ v @ r)" "l @ v @ r \<noteq> []"
    using padded_value_run [OF ok] by simp_all
  have a: "lexer_tokens ln ((l @ v @ r) @ CHR '';'' # X) =
      Inr \<lparr>ttype = VALUE, tvalue = l @ v @ r, tlineno = ln\<rparr> # lexer_tokens ln (CHR '';'' # X)"
    by (rule lexer_tokens_value_run [OF run(1) _ run(2)]) (simp add: delimiter_def)
  have s: "strip (l @ v @ r) = v"
    using ok by (simp add: field_ok_def strip_padded)
  show ?case
    unfolding f fields_text.simps a
    by (subst lexer_tokens_SEMICOLON) (simp add: p_valuelist_def s field_value_def lexer_tokens_SEMICOLON)
next
  case (Cons g gs)
  obtain l v r where f: "f = (l, v, r)" by (cases f)
  obtain l' v' r' where g: "g = (l', v', r')" by (cases g)
  from Cons.prems f g have ok: "field_ok (l, v, r)" and ok': "field_ok (l', v', r')"
    and oks: "list_all field_ok gs" by simp_all
  have run: "list_all valuechar (l @ v @ r)" "l @ v @ r \<noteq> []"
    using padded_value_run [OF ok] by simp_all
  let ?Z = "fields_text (g # gs) @ CHR '';'' # X"
  have a: "lexer_tokens ln ((l @ v @ r) @ CHR '','' # ?Z) =
      Inr \<lparr>ttype = VALUE, tvalue = l @ v @ r, tlineno = ln\<rparr> # lexer_tokens ln (CHR '','' # ?Z)"
    by (rule lexer_tokens_value_run [OF run(1) _ run(2)]) (simp add: delimiter_def)
  have d: "dropWhile hspace ?Z = fields_text (([], v', r') # gs) @ CHR '';'' # X"
    using dropWhile_hspace_fields_text [OF ok', of "[]" gs "CHR '';'' # X"] by (simp add: g)
  note d = d [unfolded g]
  have ih: "valuelist (lexer_tokens ln (fields_text (([], v', r') # gs) @ CHR '';'' # X)) =
      Inr (map field_value (([], v', r') # gs), lexer_tokens ln (CHR '';'' # X))"
    by (rule Cons.IH) (use ok' oks in \<open>simp add: field_ok_unpadded\<close>)
  have s: "strip (l @ v @ r) = v"
    using ok by (simp add: field_ok_def strip_padded)
  have t: "fields_text (f # g # gs) @ CHR '';'' # X = (l @ v @ r) @ CHR '','' # ?Z"
    by (simp add: f)
  show ?case
    unfolding t a
    by (subst lexer_tokens_COMMA) (simp add: d ih p_valuelist_multiple_def s field_value_def f g)
qed

lemma idfobject_fields_text:
  assumes "list_all field_ok (f # fs)"
  shows "idfobject (lexer_tokens ln (fields_text (f # fs) @ CHR '';'' # X)) =
           Inr (map field_value (f # fs), lexer_tokens ln (dropWhile hspace X))"
proof -
  obtain l v r where f: "f = (l, v, r)" by (cases f)
  with assms have ok: "field_ok (l, v, r)" by simp
  have run: "list_all valuechar (l @ v @ r)" "l @ v @ r \<noteq> []"
    using padded_value_run [OF ok] by simp_all
  have s: "strip (l @ v @ r) = v"
    using ok by (simp add: field_ok_def strip_padded)
  show ?thesis
  proof (cases fs)
    case Nil
    have a: "lexer_tokens ln ((l @ v @ r) @ CHR '';'' # X) =
        Inr \<lparr>ttype = VALUE, tvalue = l @ v @ r, tlineno = ln\<rparr> # lexer_tokens ln (CHR '';'' # X)"
      by (rule lexer_tokens_value_run [OF run(1) _ run(2)]) (simp add: delimiter_def)
    show ?thesis
      unfolding Nil f fields_text.simps a
      by (subst lexer_tokens_SEMICOLON)
         (simp add: p_idfobject_def p_objectname_def s field_value_def)
  next
    case (Cons g gs)
    obtain l' v' r' where g: "g = (l', v', r')" by (cases g)
    from assms f g Cons have ok': "field_ok (l', v', r')" and oks: "list_all field_ok gs"
      by simp_all
    let ?Z = "fields_text (g # gs) @ CHR '';'' # X"
    have a: "lexer_tokens ln ((l @ v @ r) @ CHR '','' # ?Z) =
        Inr \<lparr>ttype = VALUE, tvalue = l @ v @ r, tlineno = ln\<rparr> # lexer_tokens ln (CHR '','' # ?Z)"
      by (rule lexer_tokens_value_run [OF run(1) _ run(2)]) (simp add: delimiter_def)
    have d: "dropWhile hspace ?Z = fields_text (([], v', r') # gs) @ CHR '';'' # X"
      using dropWhile_hspace_fields_text [OF ok', of "[]" gs "CHR '';'' # X"] by (simp add: g)
    note d = d [unfolded g]
    have vl: "valuelist (lexer_tokens ln (fields_text (([], v', r') # gs) @ CHR '';'' # X)) =
        Inr (map field_value (([], v', r') # gs), lexer_tokens ln (CHR '';'' # X))"
      by (rule valuelist_fields_text) (use ok' oks in \<open>simp add: field_ok_unpadded\<close>)
    have t: "fields_text (f # fs) @ CHR '';'' # X = (l @ v @ r) @ CHR '','' # ?Z"
      by (simp add: f Cons)
    show ?thesis
      unfolding t a
      by (subst lexer_tokens_COMMA)
         (simp add: d vl lexer_tokens_SEMICOLON p_idfobject_with_values_def p_objectname_def s
            field_value_def f g Cons)
  qed
qed

lemma idfobjectlist_Nil: "idfobjectlist [] = Inl SyntaxErrorAtEOF"
  by (simp add: idfobjectlist.simps p_error_def)

lemma idfobjectlist_last:
  "idfobject ts = Inr (p1, []) \<Longrightarrow> idfobjectlist ts = Inr [p1]"
  by (subst idfobjectlist.simps) (simp add: p_idfobjectlist_def)

lemma idfobjectlist_more:
  assumes "idfobject ts = Inr (p1, rest)" and "idfobjectlist rest = Inr p2"
  shows "idfobjectlist ts = Inr (p1 # p2)"
proof -
  have "rest \<noteq> []" using assms(2) by (auto simp: idfobjectlist_Nil)
  with assms show ?thesis
    by (subst idfobjectlist.simps) (simp add: p_idfobjectlist_multiple_def)
qed

lemma doc_text_Cons:
  "doc_text ((fs, t, n) # xs) = fields_text fs @ CHR '';'' # (t @ replicate n LF @ doc_text xs)"
  by (simp add: doc_text_def object_text_def)

lemma object_ok_unpadded:
  "object_ok ((l, v, r) # fs, t, n) \<Longrightarrow> object_ok (([], v, r) # fs, t, n)"
  by (simp add: object_ok_def field_ok_def)

lemma dropWhile_hspace_blanks:
  assumes "list_all hspace t" and "X = [] \<or> \<not> hspace (hd X)"
  shows "dropWhile hspace (t @ X) = X"
proof -
  have "dropWhile hspace (t @ X) = dropWhile hspace X"
    using assms(1) by (intro dropWhile_append2) (auto simp: list_all_iff)
  with assms(2) show ?thesis by (cases X) auto
qed

text \<open>What the lexer reads after the semicolon of an object.\<close>

lemma lexer_tokens_after_object_end:
  assumes "list_all hspace t"
  shows "lexer_tokens ln (dropWhile hspace (t @ replicate n LF)) = []"
proof -
  have "dropWhile hspace (t @ replicate n LF) = replicate n LF"
    using assms by (intro dropWhile_hspace_blanks) (auto simp: hspace_def)
  then show ?thesis by (simp add: lexer_tokens_newlines_end)
qed

lemma lexer_tokens_after_object_next:
  assumes "list_all hspace t" and "object_ok y"
  shows "\<exists>ln' y'. lexer_tokens ln (dropWhile hspace (t @ replicate n LF @ doc_text (y # ys))) =
            lexer_tokens ln' (doc_text (y' # ys)) \<and> object_ok y' \<and> fields_of y' = fields_of y"
proof -
  obtain fs t' n' where y: "y = (fs, t', n')" by (cases y)
  with assms(2) obtain f gs where fs: "fs = f # gs" by (cases fs) (auto simp: object_ok_def)
  obtain l v r where f: "f = (l, v, r)" by (cases f)
  from assms(2) have ok: "field_ok (l, v, r)" by (simp add: y fs f object_ok_def)
  let ?X = "t' @ replicate n' LF @ doc_text ys"
  show ?thesis
  proof (cases n)
    case 0
    have "dropWhile hspace (t @ fields_text ((l, v, r) # gs) @ CHR '';'' # ?X) =
        fields_text (([], v, r) # gs) @ CHR '';'' # ?X"
      by (rule dropWhile_hspace_fields_text [OF ok assms(1)])
    then have "lexer_tokens ln (dropWhile hspace (t @ replicate n LF @ doc_text (y # ys))) =
        lexer_tokens ln (doc_text ((([], v, r) # gs, t', n') # ys))"
      by (simp add: 0 y fs f doc_text_Cons)
    moreover have "object_ok (([], v, r) # gs, t', n')"
      using assms(2) by (simp add: y fs f object_ok_unpadded)
    moreover have "fields_of (([], v, r) # gs, t', n') = fields_of y"
      by (simp add: y fs f fields_of_def field_value_def)
    ultimately show ?thesis by blast
  next
    case (Suc k)
    obtain d Z where d: "delimiter d"
      and Z: "fields_text ((l, v, r) # gs) @ CHR '';'' # ?X = (l @ v @ r) @ d # Z"
      using fields_text_value_run [OF ok] by blast
    have run: "list_all valuechar (l @ v @ r)"
      using padded_value_run [OF ok] by simp
    have "dropWhile hspace (t @ replicate n LF @ doc_text (y # ys)) = replicate n LF @ doc_text (y # ys)"
      using assms(1) Suc by (intro dropWhile_hspace_blanks) (auto simp: hspace_def)
    moreover have "lexer_tokens ln (replicate n LF @ (l @ v @ r) @ d # Z) =
        lexer_tokens (ln + n) ((l @ v @ r) @ d # Z)"
      by (rule lexer_tokens_newlines_value_run [OF run d])
    ultimately have "lexer_tokens ln (dropWhile hspace (t @ replicate n LF @ doc_text (y # ys))) =
        lexer_tokens (ln + n) (doc_text (y # ys))"
      using Z by (simp add: y fs f doc_text_Cons)
    with assms(2) show ?thesis by blast
  qed
qed

theorem idfobjectlist_doc_text:
  assumes "list_all object_ok (x # xs)"
  shows "idfobjectlist (lexer_tokens ln (doc_text (x # xs))) = Inr (map fields_of (x # xs))"
  using assms
proof (induction xs arbitrary: x ln)
  case Nil
  obtain fs t n where x: "x = (fs, t, n)" by (cases x)
  with Nil obtain f gs where fs: "fs = f # gs" and ok: "list_all field_ok (f # gs)"
    and t: "list_all hspace t"
    by (cases fs) (auto simp: object_ok_def)
  have "idfobject (lexer_tokens ln (fields_text (f # gs) @ CHR '';'' # (t @ replicate n LF))) =
      Inr (map field_value (f # gs), [])"
    using idfobject_fields_text [OF ok, of ln "t @ replicate n LF"]
    by (simp only: lexer_tokens_after_object_end [OF t])
  then show ?case
    by (simp add: x fs doc_text_def object_text_def idfobjectlist_last fields_of_def)
next
  case (Cons y ys)
  obtain fs t n where x: "x = (fs, t, n)" by (cases x)
  with Cons.prems obtain f gs where fs: "fs = f # gs" and ok: "list_all field_ok (f # gs)"
    and t: "list_all hspace t"
    by (cases fs) (auto simp: object_ok_def)
  from Cons.prems have y: "object_ok y" and ys: "list_all object_ok ys" by simp_all
  obtain ln' y' where r: "lexer_tokens ln (dropWhile hspace (t @ replicate n LF @ doc_text (y # ys))) =
        lexer_tokens ln' (doc_text (y' # ys))" and y': "object_ok y'" and e: "fields_of y' = fields_of y"
    using lexer_tokens_after_object_next [OF t y] by blast
  have 1: "idfobject (lexer_tokens ln (doc_text (x # y # ys))) =
      Inr (map field_value (f # gs), lexer_tokens ln' (doc_text (y' # ys)))"
    using idfobject_fields_text [OF ok, of ln "t @ replicate n LF @ doc_text (y # ys)"]
    by (simp only: r x fs doc_text_Cons)
  have 2: "idfobjectlist (lexer_tokens ln' (doc_text (y' # ys))) = Inr (map fields_of (y' # ys))"
    by (rule Cons.IH) (use y' ys in simp)
  show ?case
    using idfobjectlist_more [OF 1 2]
    by (simp add: e) (simp add: x fs fields_of_def)
qed

lemma p_idffile_loop_foldl:
  "list_all (\<lambda>x. x \<noteq> []) objs \<Longrightarrow>
     p_idffile_loop result objs =
       Inr (foldl (\<lambda>result x. setdefault_append result (objkey x) x) result objs)"
proof (induction objs arbitrary: result)
  case Nil
  then show ?case by simp
next
  case (Cons x xs)
  then obtain n r where "x = n # r" by (cases x) auto
  with Cons show ?case by (simp add: objkey_def)
qed

lemma p_idffile_aggregate:
  "list_all (\<lambda>x. x \<noteq> []) objs \<Longrightarrow> p_idffile objs = Inr (aggregate objs)"
  by (simp add: p_idffile_def aggregate_def p_idffile_loop_foldl)

lemma keys_setdefault_append:
  "map fst (setdefault_append result k x) =
     (if k \<in> set (map fst result) then map fst result else map fst result @ [k])"
  by (induction result) (auto simp: rev_image_eqI)

lemma map_of_setdefault_append:
  "map_of (setdefault_append result k x) =
     (map_of result)(k \<mapsto> (case map_of result k of None \<Rightarrow> [x] | Some xs \<Rightarrow> xs @ [x]))"
  by (induction result) (auto simp: fun_eq_iff)

lemma mset_setdefault_append:
  "mset (concat (map snd (setdefault_append result k x))) = mset (concat (map snd result)) + {#x#}"
  by (induction result) auto

lemma set_first_occurrences: "set (first_occurrences xs) = set xs"
  by (induction xs) auto

lemma removeAll_first_occurrences:
  "removeAll k (first_occurrences ys) = first_occurrences (removeAll k ys)"
proof (induction ys)
  case Nil
  then show ?case by simp
next
  case (Cons y ys)
  have c: "removeAll k (removeAll y zs) = removeAll y (removeAll k zs)" for zs :: "'a list"
    by (induction zs) auto
  show ?case
  proof (cases "k = y")
    case True
    then show ?thesis using Cons by (simp add: set_first_occurrences)
  next
    case False
    then show ?thesis using Cons by (simp add: c)
  qed
qed

lemma keys_foldl:
  "map fst (foldl (\<lambda>result x. setdefault_append result (objkey x) x) result objs) =
     map fst result @ first_occurrences (filter (\<lambda>k. k \<notin> set (map fst result)) (map objkey objs))"
proof (induction objs arbitrary: result)
  case Nil
  then show ?case by simp
next
  case (Cons x xs)
  let ?k = "objkey x"
  let ?K = "set (map fst result)"
  show ?case
  proof (cases "?k \<in> ?K")
    case True
    then show ?thesis by (simp add: Cons.IH keys_setdefault_append)
  next
    case False
    have "filter (\<lambda>k. k \<notin> set (map fst result @ [?k])) (map objkey xs) =
        removeAll ?k (filter (\<lambda>k. k \<notin> ?K) (map objkey xs))"
      by (induction xs) auto
    with False show ?thesis
      by (simp add: Cons.IH keys_setdefault_append removeAll_first_occurrences)
  qed
qed

lemma map_of_foldl:
  "map_of (foldl (\<lambda>result x. setdefault_append result (objkey x) x) result objs) k =
     (case map_of result k of
        Some xs \<Rightarrow> Some (xs @ filter (\<lambda>x. objkey x = k) objs)
      | None \<Rightarrow> if filter (\<lambda>x. objkey x = k) objs = [] then None
                else Some (filter (\<lambda>x. objkey x = k) objs))"
proof (induction objs arbitrary: result)
  case Nil
  then show ?case by (simp split: option.splits)
next
  case (Cons x xs)
  show ?case
    by (simp add: Cons.IH map_of_setdefault_append split: option.splits)
qed

lemma mset_foldl:
  "mset (concat (map snd (foldl (\<lambda>result x. setdefault_append result (objkey x) x) result objs))) =
     mset (concat (map snd result)) + mset objs"
  by (induction objs arbitrary: result) (simp_all add: mset_setdefault_append)

lemma keys_aggregate: "map fst (aggregate objs) = first_occurrences (map objkey objs)"
  by (simp add: aggregate_def keys_foldl)

lemma map_of_aggregate:
  "map_of (aggregate objs) k =
     (if filter (\<lambda>x. objkey x = k) objs = [] then None
      else Some (filter (\<lambda>x. objkey x = k) objs))"
  by (simp add: aggregate_def map_of_foldl)

lemma mset_aggregate: "mset (concat (map snd (aggregate objs))) = mset objs"
  by (simp add: aggregate_def mset_foldl)

lemma distinct_first_occurrences: "distinct (first_occurrences xs)"
  by (induction xs) (auto simp: distinct_removeAll)

lemma setdefault_append_new:
  "k \<notin> fst ` set result \<Longrightarrow> setdefault_append result k x = result @ [(k, [x])]"
  by (induction result) auto

lemma setdefault_append_last:
  "k \<notin> fst ` set result \<Longrightarrow>
     setdefault_append (result @ [(k, ys)]) k x = result @ [(k, ys @ [x])]"
  by (induction result) auto

lemma foldl_same_key:
  assumes "k \<notin> fst ` set result" and "list_all (\<lambda>x. objkey x = k) xs"
  shows "foldl (\<lambda>result x. setdefault_append result (objkey x) x) (result @ [(k, ys)]) xs =
           result @ [(k, ys @ xs)]"
  using assms(2)
proof (induction xs arbitrary: ys)
  case Nil
  then show ?case by simp
next
  case (Cons x xs)
  then show ?case using assms(1) by (simp add: setdefault_append_last)
qed

lemma foldl_group:
  assumes "k \<notin> fst ` set result" and "list_all (\<lambda>x. objkey x = k) xs" and "xs \<noteq> []"
  shows "foldl (\<lambda>result x. setdefault_append result (objkey x) x) result xs = result @ [(k, xs)]"
proof -
  from assms(3) obtain x xs' where xs: "xs = x # xs'" by (cases xs) auto
  with assms(2) have x: "objkey x = k" and xs': "list_all (\<lambda>x. objkey x = k) xs'" by simp_all
  show ?thesis
    using foldl_same_key [OF assms(1) xs', of "[x]"] assms(1)
    by (simp add: xs x setdefault_append_new)
qed

lemma foldl_grouped:
  assumes "grouped (result @ D)"
  shows "foldl (\<lambda>result x. setdefault_append result (objkey x) x) result (concat (map snd D)) =
           result @ D"
  using assms
proof (induction D arbitrary: result)
  case Nil
  then show ?case by simp
next
  case (Cons e D)
  obtain k xs where e: "e = (k, xs)" by (cases e)
  from Cons.prems have k: "k \<notin> fst ` set result" and xs: "list_all (\<lambda>x. objkey x = k) xs"
    and ne: "xs \<noteq> []"
    by (auto simp: grouped_def e list_all_iff)
  have "grouped ((result @ [(k, xs)]) @ D)" using Cons.prems by (simp add: e)
  then have "foldl (\<lambda>result x. setdefault_append result (objkey x) x) (result @ [(k, xs)])
      (concat (map snd D)) = (result @ [(k, xs)]) @ D"
    by (rule Cons.IH)
  then show ?case by (simp add: e foldl_group [OF k xs ne])
qed

lemma aggregate_regroup: "grouped D \<Longrightarrow> aggregate (concat (map snd D)) = D"
  using foldl_grouped [of "[]" D] by (simp add: aggregate_def)

lemma aggregate_grouped:
  assumes "list_all (\<lambda>x. x \<noteq> []) objs"
  shows "grouped (aggregate objs)"
proof -
  have d: "distinct (map fst (aggregate objs))"
    by (simp add: keys_aggregate distinct_first_occurrences)
  have "snd e \<noteq> [] \<and> list_all (\<lambda>x. x \<noteq> [] \<and> objkey x = fst e) (snd e)"
    if "e \<in> set (aggregate objs)" for e
  proof -
    obtain k xs where e: "e = (k, xs)" by (cases e)
    with that d have "map_of (aggregate objs) k = Some xs" by simp
    then have "xs = filter (\<lambda>x. objkey x = k) objs" and "xs \<noteq> []"
      by (auto simp: map_of_aggregate split: if_splits)
    with assms show ?thesis by (auto simp: e list_all_iff)
  qed
  with d show ?thesis by (simp add: grouped_def list_all_iff)
qed

text \<open>The serialisation is a rendered text.\<close>

lemma fields_text_plain:
  "fields_text ((l, v, []) # map (\<lambda>v. ('' '', v, [])) vs) = l @ join '', '' (v # vs)"
  by (induction vs arbitrary: l v) simp_all

lemma serialize_object_text: "serialize_object x = fields_text (plain_fields x) @ '';''"
proof (cases x)
  case Nil
  then show ?thesis by (simp add: serialize_object_def plain_fields_def)
next
  case (Cons n vs)
  then show ?thesis
    using fields_text_plain [of "[]" n vs] by (simp add: serialize_object_def plain_fields_def)
qed

lemma serialize_doc_text: "serialize objs = doc_text (plain_objects objs)"
  by (induction objs rule: plain_objects.induct)
     (simp_all add: serialize_def doc_text_def object_text_def serialize_object_text)

lemma plain_fields_ok: "x \<noteq> [] \<Longrightarrow> list_all wf_field x \<Longrightarrow> list_all hspace t \<Longrightarrow> object_ok (plain_fields x, t, n)"
  by (cases x) (auto simp: object_ok_def plain_fields_def field_ok_def list_all_iff hspace_def)

lemma plain_objects_ok:
  "list_all (\<lambda>x. x \<noteq> [] \<and> list_all wf_field x) objs \<Longrightarrow> list_all object_ok (plain_objects objs)"
  by (induction objs rule: plain_objects.induct) (simp_all add: plain_fields_ok)

lemma fields_of_plain: "fields_of (plain_fields x, t, n) = x"
  by (cases x) (simp_all add: fields_of_def plain_fields_def field_value_def comp_def)

lemma fields_of_plain_objects: "map fields_of (plain_objects objs) = objs"
  by (induction objs rule: plain_objects.induct) (simp_all add: fields_of_plain)

theorem parse_serialize:
  assumes "objs \<noteq> []" and "list_all (\<lambda>x. x \<noteq> [] \<and> list_all wf_field x) objs"
  shows "parse (serialize objs) = Inr (aggregate objs)"
proof -
  from assms(1) obtain x xs where p: "plain_objects objs = x # xs"
    by (cases objs rule: plain_objects.cases) auto
  have "list_all object_ok (x # xs)"
    using plain_objects_ok [OF assms(2)] by (simp add: p)
  then have "idfobjectlist (lexer_tokens 1 (doc_text (x # xs))) = Inr (map fields_of (x # xs))"
    by (rule idfobjectlist_doc_text)
  then have "idfobjectlist (lexer_tokens 1 (serialize objs)) = Inr objs"
    using fields_of_plain_objects [of objs] by (simp add: serialize_doc_text p)
  moreover have "p_idffile objs = Inr (aggregate objs)"
    using assms(2) by (intro p_idffile_aggregate) (simp add: list_all_iff)
  ultimately show ?thesis by (simp add: parse_def idffile_def)
qed

lemma lexre_cases:
  assumes "lexre s = Some (ty, m, r)"
  shows "(ty = COMMENT \<and> re_COMMENT s = Some (m, r)) \<or>
         (ty = newline \<and> re_newline s = Some (m, r)) \<or>
         (ty = VALUE \<and> re_VALUE s = Some (m, r)) \<or>
         (ty = COMMA \<and> re_COMMA s = Some (m, r)) \<or>
         (ty = SEMICOLON \<and> re_SEMICOLON s = Some (m, r))"
proof (cases "re_COMMENT s")
  case (Some a)
  with assms show ?thesis by (cases a) (simp add: lexre_def)
next
  case c: None
  show ?thesis
  proof (cases "re_newline s")
    case (Some a)
    with assms c show ?thesis by (cases a) (simp add: lexre_def)
  next
    case n: None
    show ?thesis
    proof (cases "re_VALUE s")
      case (Some a)
      with assms c n show ?thesis by (cases a) (simp add: lexre_def)
    next
      case v: None
      show ?thesis
      proof (cases "re_COMMA s")
        case (Some a)
        with assms c n v show ?thesis by (cases a) (simp add: lexre_def)
      next
        case k: None
        show ?thesis
        proof (cases "re_SEMICOLON s")
          case (Some a)
          with assms c n v k show ?thesis by (cases a) (simp add: lexre_def)
        next
          case None
          with assms c n v k show ?thesis by (simp add: lexre_def)
        qed
      qed
    qed
  qed
qed

lemma lexre_None_iff:
  "lexre s = None \<longleftrightarrow>
     re_COMMENT s = None \<and> re_newline s = None \<and> re_VALUE s = None \<and>
     re_COMMA s = None \<and> re_SEMICOLON s = None"
  by (simp add: lexre_def split: option.splits)

text \<open>Every character starts a match of some rule.\<close>

lemma lexre_total: "lexre s = None \<longleftrightarrow> s = []"
proof
  assume n: "lexre s = None"
  show "s = []"
  proof (rule ccontr)
    assume "s \<noteq> []"
    then obtain c r where s: "s = c # r" by (cases s) auto
    from n have v: "re_VALUE (c # r) = None" and cm: "re_COMMENT (c # r) = None"
      and nl: "re_newline (c # r) = None" and k: "re_COMMA (c # r) = None"
      and sc: "re_SEMICOLON (c # r) = None"
      by (simp_all add: lexre_None_iff s)
    from v have "\<not> valuechar c" by (auto simp: re_VALUE_eq split: if_splits)
    then consider "c = CHR ''!''" | "c = CHR '',''" | "c = CHR '';''" | "c = LF"
      by (auto simp: valuechar_iff)
    then show False
    proof cases
      case 1
      with cm show False by (simp add: re_COMMENT_def cspace_def)
    next
      case 2
      with k show False by (simp add: re_COMMA_def re_delim_def hspace_def)
    next
      case 3
      with sc show False by (simp add: re_SEMICOLON_def re_delim_def hspace_def)
    next
      case 4
      with nl show False
        by (auto simp: re_newline_def hspace_def nl_seqs_LF split: prod.splits if_splits)
    qed
  qed
next
  assume "s = []"
  then show "lexre s = None"
    by (simp add: lexre_None_iff re_COMMENT_def re_newline_def re_VALUE_eq re_COMMA_def
        re_SEMICOLON_def re_delim_def)
qed

lemma lexer_tokens_unfold:
  assumes "s \<noteq> []"
  shows "\<exists>ty m r ln'. lexre s = Some (ty, m, r) \<and> length r < length s \<and>
           (lexer_tokens ln s = lexer_tokens ln' r \<or>
            lexer_tokens ln s = Inr \<lparr>ttype = ty, tvalue = m, tlineno = ln\<rparr> # lexer_tokens ln r \<and>
              (ty = VALUE \<and> m = takeWhile valuechar s \<or> ty = COMMA \<or> ty = SEMICOLON))"
proof -
  from assms obtain ty m r where l: "lexre s = Some (ty, m, r)"
    using lexre_total [of s] by (cases "lexre s") auto
  have len: "length r < length s" by (rule lexre_shorter [OF l])
  show ?thesis
  proof (cases ty)
    case COMMENT
    have "lexer_tokens ln s = lexer_tokens ln r"
      by (rule lexer_tokens_skipped [OF l]) (simp add: COMMENT lexfunc_def t_COMMENT_def)
    with l len show ?thesis by blast
  next
    case newline
    have "lexer_tokens ln s = lexer_tokens (ln + length m) r"
      by (rule lexer_tokens_skipped [OF l]) (simp add: newline lexfunc_def t_newline_def)
    with l len show ?thesis by blast
  next
    case VALUE
    have "lexer_tokens ln s = Inr \<lparr>ttype = ty, tvalue = m, tlineno = ln\<rparr> # lexer_tokens ln r"
      by (rule lexer_tokens_returned [OF l]) (simp add: VALUE lexfunc_def t_VALUE_def)
    moreover have "m = takeWhile valuechar s"
      using lexre_cases [OF l] VALUE by (auto simp: re_VALUE_eq split: if_splits)
    ultimately show ?thesis using l len VALUE by blast
  next
    case COMMA
    have "lexer_tokens ln s = Inr \<lparr>ttype = ty, tvalue = m, tlineno = ln\<rparr> # lexer_tokens ln r"
      by (rule lexer_tokens_returned [OF l]) (simp add: COMMA lexfunc_def)
    with l len COMMA show ?thesis by blast
  next
    case SEMICOLON
    have "lexer_tokens ln s = Inr \<lparr>ttype = ty, tvalue = m, tlineno = ln\<rparr> # lexer_tokens ln r"
      by (rule lexer_tokens_returned [OF l]) (simp add: SEMICOLON lexfunc_def)
    with l len SEMICOLON show ?thesis by blast
  qed
qed

lemma lexer_tokens_all_tokens:
  "\<exists>toks. lexer_tokens ln s = map Inr toks \<and> list_all token_ok toks"
proof (induction "length s" arbitrary: s ln rule: less_induct)
  case less
  show ?case
  proof (cases "s = []")
    case True
    then show ?thesis by (simp add: lexer_tokens_Nil)
  next
    case False
    from lexer_tokens_unfold [OF False, of ln]
    obtain ty m r ln' where len: "length r < length s"
      and d: "lexer_tokens ln s = lexer_tokens ln' r \<or>
            lexer_tokens ln s = Inr \<lparr>ttype = ty, tvalue = m, tlineno = ln\<rparr> # lexer_tokens ln r \<and>
              (ty = VALUE \<and> m = takeWhile valuechar s \<or> ty = COMMA \<or> ty = SEMICOLON)"
      by blast
    from d show ?thesis
    proof
      assume "lexer_tokens ln s = lexer_tokens ln' r"
      with less [OF len, of ln'] show ?thesis by simp
    next
      assume a: "lexer_tokens ln s = Inr \<lparr>ttype = ty, tvalue = m, tlineno = ln\<rparr> # lexer_tokens ln r \<and>
              (ty = VALUE \<and> m = takeWhile valuechar s \<or> ty = COMMA \<or> ty = SEMICOLON)"
      from less [OF len, of ln] obtain toks where t: "lexer_tokens ln r = map Inr toks"
        and ok: "list_all token_ok toks" by blast
      have "token_ok \<lparr>ttype = ty, tvalue = m, tlineno = ln\<rparr>"
        using a by (auto simp: token_ok_def list_all_iff dest: set_takeWhileD)
      with a t ok have "lexer_tokens ln s = map Inr (\<lparr>ttype = ty, tvalue = m, tlineno = ln\<rparr> # toks) \<and>
          list_all token_ok (\<lparr>ttype = ty, tvalue = m, tlineno = ln\<rparr> # toks)"
        by simp
      then show ?thesis by blast
    qed
  qed
qed

text \<open>What the parser functions do on a well-formed group of tokens.\<close>

lemma valuelist_group:
  "object_pat (map ttype g) \<Longrightarrow>
     valuelist (map Inr g @ rest) = Inr (object_of g, Inr (last g) # rest)"
proof (induction g rule: induct_list012)
  case 1
  then show ?case by simp
next
  case (2 t)
  then show ?case by simp
next
  case (3 t u g)
  show ?case
  proof (cases "ttype u = SEMICOLON")
    case True
    with 3 show ?thesis by (simp add: object_of_def p_valuelist_def)
  next
    case False
    with 3 show ?thesis
      by (cases g) (auto simp: object_of_def p_valuelist_multiple_def)
  qed
qed

lemma object_pat_last: "object_pat tys \<Longrightarrow> tys \<noteq> [] \<and> last tys = SEMICOLON"
  by (induction tys rule: object_pat.induct) (auto split: if_splits)

lemma idfobject_group:
  assumes "is_group g"
  shows "idfobject (map Inr g @ rest) = Inr (object_of g, rest)"
proof -
  from assms obtain t u g' where g: "g = t # u # g'" and t: "ttype t = VALUE"
    by (cases "map ttype g" rule: object_pat.cases) (auto simp: is_group_def)
  show ?thesis
  proof (cases "ttype u = SEMICOLON")
    case True
    with assms g t show ?thesis
      by (simp add: is_group_def object_of_def p_idfobject_def p_objectname_def)
  next
    case False
    with assms g have c: "ttype u = COMMA" and p: "object_pat (map ttype g')"
      by (simp_all add: is_group_def)
    from object_pat_last [OF p] have l: "g' \<noteq> []" "ttype (last g') = SEMICOLON"
      by (auto simp: last_map)
    show ?thesis
      using t c l valuelist_group [OF p, of rest]
      by (simp add: g object_of_def p_idfobject_with_values_def p_objectname_def)
  qed
qed

lemma idfobjectlist_groups:
  assumes "list_all is_group gs" and "gs \<noteq> []"
  shows "idfobjectlist (map Inr (concat gs)) = Inr (map object_of gs)"
  using assms
proof (induction gs)
  case Nil
  then show ?case by simp
next
  case (Cons g gs)
  then have g: "is_group g" and gs: "list_all is_group gs" by simp_all
  have 1: "idfobject (map Inr (concat (g # gs))) = Inr (object_of g, map Inr (concat gs))"
    using idfobject_group [OF g, of "map Inr (concat gs)"] by simp
  show ?case
  proof (cases "gs = []")
    case True
    with 1 show ?thesis by (simp add: idfobjectlist_last)
  next
    case False
    with Cons.IH gs have "idfobjectlist (map Inr (concat gs)) = Inr (map object_of gs)" by simp
    from idfobjectlist_more [OF 1 this] show ?thesis by simp
  qed
qed

lemma idfobjectlist_groups_error:
  assumes "list_all is_group gs" and "idfobject rest = Inl e" and "rest \<noteq> []"
  shows "idfobjectlist (map Inr (concat gs) @ rest) = Inl e"
  using assms(1)
proof (induction gs)
  case Nil
  show ?case using assms(2) by (subst idfobjectlist.simps) simp
next
  case (Cons g gs)
  then have g: "is_group g" and ih: "idfobjectlist (map Inr (concat gs) @ rest) = Inl e"
    by simp_all
  have "idfobject (map Inr (concat (g # gs)) @ rest) = Inr (object_of g, map Inr (concat gs) @ rest)"
    using idfobject_group [OF g, of "map Inr (concat gs) @ rest"] by simp
  then show ?case
    using ih assms(3) by (subst idfobjectlist.simps) simp
qed

text \<open>What they do on an unfinished group, and on a token that cannot follow.\<close>

lemma valuelist_partial:
  "partial_pat (map ttype p) \<Longrightarrow> valuelist (map Inr p) = Inl SyntaxErrorAtEOF"
  by (induction p rule: induct_list012) (simp_all add: p_error_def)

lemma idfobject_partial:
  assumes "partial_pat (map ttype p)"
  shows "idfobject (map Inr p) = Inl SyntaxErrorAtEOF"
proof (cases p)
  case Nil
  then show ?thesis by (simp add: p_error_def)
next
  case (Cons t q)
  show ?thesis
  proof (cases q)
    case Nil
    with assms Cons show ?thesis by (simp add: p_error_def)
  next
    case (Cons u p')
    with assms \<open>p = t # q\<close> show ?thesis using valuelist_partial [of p'] by simp
  qed
qed

lemma valuelist_reject:
  assumes "partial_pat (map ttype p)" and "\<not> partial_pat (map ttype (p @ [t]))"
    and "\<not> object_pat (map ttype (p @ [t]))"
  shows "valuelist (map Inr (p @ t # rest)) = Inl (p_error (Some t))"
  using assms
proof (induction p rule: induct_list012)
  case 1
  then show ?case by (cases rest) simp_all
next
  case (2 v)
  then show ?case by (auto split: if_splits)
next
  case (3 v c p')
  then show ?case by (auto split: if_splits)
qed

lemma idfobject_reject:
  assumes "partial_pat (map ttype p)" and "\<not> partial_pat (map ttype (p @ [t]))"
    and "\<not> object_pat (map ttype (p @ [t]))"
  shows "idfobject (map Inr (p @ t # rest)) = Inl (p_error (Some t))"
proof (cases p)
  case Nil
  with assms show ?thesis by (cases rest) simp_all
next
  case (Cons v q)
  show ?thesis
  proof (cases q)
    case Nil
    with assms Cons show ?thesis by (auto split: if_splits)
  next
    case (Cons c p')
    with assms \<open>p = v # q\<close> have "ttype v = VALUE" "ttype c = COMMA"
      and "partial_pat (map ttype p')" "\<not> partial_pat (map ttype (p' @ [t]))"
      "\<not> object_pat (map ttype (p' @ [t]))"
      by (auto split: if_splits)
    then show ?thesis
      using valuelist_reject [of p' t rest] by (simp add: Cons \<open>p = v # q\<close>)
  qed
qed

text \<open>The patterns and the prefixes of an object.\<close>

lemma partial_pat_extend: "partial_pat tys \<Longrightarrow> \<exists>ext. ext \<noteq> [] \<and> object_pat (tys @ ext)"
proof (induction tys rule: partial_pat.induct)
  case 1
  have "object_pat ([] @ [VALUE, SEMICOLON])" by simp
  then show ?case by blast
next
  case (2 a)
  then have "object_pat ([a] @ [SEMICOLON])" by simp
  then show ?case by blast
next
  case (3 a b r)
  then obtain ext where "ext \<noteq> []" "object_pat (r @ ext)" by auto
  with 3 have "ext \<noteq> [] \<and> object_pat ((a # b # r) @ ext)" by simp
  then show ?case by blast
qed

lemma object_pat_extension: "object_pat (tys @ ext) \<Longrightarrow> ext \<noteq> [] \<Longrightarrow> partial_pat tys"
proof (induction tys rule: partial_pat.induct)
  case 1
  then show ?case by simp
next
  case (2 a)
  then show ?case by (cases ext) auto
next
  case (3 a b r)
  then show ?case by (auto split: if_splits)
qed

lemma partial_pat_iff: "partial_pat tys \<longleftrightarrow> (\<exists>q. object_pat q \<and> strict_prefix tys q)"
proof
  assume "partial_pat tys"
  then obtain ext where "ext \<noteq> []" "object_pat (tys @ ext)"
    using partial_pat_extend by blast
  then have "object_pat (tys @ ext) \<and> strict_prefix tys (tys @ ext)"
    by (simp add: strict_prefix_def)
  then show "\<exists>q. object_pat q \<and> strict_prefix tys q" by blast
next
  assume "\<exists>q. object_pat q \<and> strict_prefix tys q"
  then obtain q where q: "object_pat q" and "strict_prefix tys q" by blast
  then obtain ext where "q = tys @ ext" "ext \<noteq> []"
    by (auto simp: strict_prefix_def prefix_def)
  with q show "partial_pat tys" using object_pat_extension by blast
qed

lemma object_pat_prefix_free: "object_pat tys \<Longrightarrow> object_pat (tys @ ext) \<Longrightarrow> ext = []"
  by (induction tys rule: object_pat.induct) (auto split: if_splits)

lemma viable_iff:
  "partial_pat tys \<or> object_pat tys \<longleftrightarrow> (\<exists>q. object_pat q \<and> prefix tys q)"
proof
  assume "partial_pat tys \<or> object_pat tys"
  then show "\<exists>q. object_pat q \<and> prefix tys q"
    using partial_pat_iff [of tys] by (auto simp: strict_prefix_def)
next
  assume "\<exists>q. object_pat q \<and> prefix tys q"
  then obtain q where q: "object_pat q" "prefix tys q" by blast
  show "partial_pat tys \<or> object_pat tys"
  proof (cases "tys = q")
    case True
    with q show ?thesis by simp
  next
    case False
    with q have "strict_prefix tys q" by (simp add: strict_prefix_def)
    with q show ?thesis using partial_pat_iff by blast
  qed
qed

text \<open>Every successful parse reads its objects from groups of tokens.\<close>

lemma object_of_append_SEMICOLON: "ttype u = SEMICOLON \<Longrightarrow> object_of (g @ [u]) = object_of g"
  by (simp add: object_of_def)

lemma valuelist_sound:
  "valuelist ts = Inr (vs, rest) \<Longrightarrow>
     \<exists>g u r. rest = Inr u # r \<and> ts = map Inr g @ rest \<and> object_pat (map ttype (g @ [u])) \<and>
             vs = object_of g"
proof (induction ts arbitrary: vs rest rule: valuelist.induct)
  case (5 t u ts)
  show ?case
  proof (cases "ttype u = SEMICOLON")
    case True
    with "5.prems" have "ttype t = VALUE" "vs = [strip (tvalue t)]" "rest = Inr u # ts"
      by (auto simp: p_valuelist_def split: if_splits)
    then have "rest = Inr u # ts \<and> Inr t # Inr u # ts = map Inr [t] @ rest \<and>
        object_pat (map ttype ([t] @ [u])) \<and> vs = object_of [t]"
      using True by (simp add: object_of_def)
    then show ?thesis by blast
  next
    case False
    with "5.prems" obtain p3 where t: "ttype t = VALUE" and u: "ttype u = COMMA"
      and v: "valuelist ts = Inr (p3, rest)" and vs: "vs = strip (tvalue t) # p3"
      by (auto simp: p_valuelist_multiple_def split: if_splits sum.splits)
    from "5.IH" [OF _ u v] t obtain g w r where "rest = Inr w # r" "ts = map Inr g @ rest"
      "object_pat (map ttype (g @ [w]))" "p3 = object_of g"
      by auto
    then have "rest = Inr w # r \<and> Inr t # Inr u # ts = map Inr (t # u # g) @ rest \<and>
        object_pat (map ttype ((t # u # g) @ [w])) \<and> vs = object_of (t # u # g)"
      using t u vs by (simp add: object_of_def)
    then show ?thesis by blast
  qed
qed (auto split: if_splits)

lemma idfobject_sound:
  assumes "idfobject ts = Inr (x, rest)"
  shows "\<exists>g. ts = map Inr g @ rest \<and> is_group g \<and> x = object_of g"
proof (cases ts rule: idfobject.cases)
  case (5 t u ts')
  show ?thesis
  proof (cases "ttype u = SEMICOLON")
    case True
    with assms 5 have "ttype t = VALUE" "x = [strip (tvalue t)]" "rest = ts'"
      by (auto simp: p_idfobject_def p_objectname_def split: if_splits)
    then have "ts = map Inr [t, u] @ rest \<and> is_group [t, u] \<and> x = object_of [t, u]"
      using True 5 by (simp add: is_group_def object_of_def)
    then show ?thesis by blast
  next
    case False
    with assms 5 obtain p3 r1 where t: "ttype t = VALUE" and u: "ttype u = COMMA"
      and v: "valuelist ts' = Inr (p3, r1)" and e: "expect_SEMICOLON r1 = Inr rest"
      and x: "x = strip (tvalue t) # p3"
      by (auto simp: p_idfobject_with_values_def p_objectname_def
          split: if_splits sum.splits prod.splits)
    from valuelist_sound [OF v] obtain g w r where r1: "r1 = Inr w # r"
      and ts': "ts' = map Inr g @ r1" and p: "object_pat (map ttype (g @ [w]))"
      and p3: "p3 = object_of g"
      by blast
    from e r1 have w: "ttype w = SEMICOLON" and r: "r = rest" by (auto split: if_splits)
    have "ts = map Inr (t # u # g @ [w]) @ rest \<and> is_group (t # u # g @ [w]) \<and>
        x = object_of (t # u # g @ [w])"
      using 5 t u ts' r1 r p x p3 w by (simp add: is_group_def object_of_def)
    then show ?thesis by blast
  qed
qed (use assms in \<open>auto split: if_splits\<close>)

lemma idfobjectlist_sound:
  "idfobjectlist ts = Inr objs \<Longrightarrow>
     \<exists>gs. ts = map Inr (concat gs) \<and> gs \<noteq> [] \<and> list_all is_group gs \<and> objs = map object_of gs"
proof (induction "length ts" arbitrary: ts objs rule: less_induct)
  case less
  from less.prems obtain p1 rest where o: "idfobject ts = Inr (p1, rest)"
    by (subst (asm) idfobjectlist.simps) (auto split: sum.splits)
  from idfobject_sound [OF o] obtain g where g: "ts = map Inr g @ rest" "is_group g" "p1 = object_of g"
    by blast
  show ?case
  proof (cases "rest = []")
    case True
    with o less.prems have "objs = [p1]"
      by (subst (asm) idfobjectlist.simps) (simp add: p_idfobjectlist_def)
    with g True have "ts = map Inr (concat [g]) \<and> [g] \<noteq> [] \<and> list_all is_group [g] \<and>
        objs = map object_of [g]" by simp
    then show ?thesis by blast
  next
    case False
    with o less.prems obtain p2 where r: "idfobjectlist rest = Inr p2" and objs: "objs = p1 # p2"
      by (subst (asm) idfobjectlist.simps)
         (auto simp: p_idfobjectlist_multiple_def split: sum.splits)
    have "length rest < length ts" by (rule idfobject_shorter [OF o])
    from less.hyps [OF this r] obtain gs where "rest = map Inr (concat gs)" "gs \<noteq> []"
      "list_all is_group gs" "p2 = map object_of gs" by blast
    with g objs have "ts = map Inr (concat (g # gs)) \<and> g # gs \<noteq> [] \<and> list_all is_group (g # gs) \<and>
        objs = map object_of (g # gs)" by simp
    then show ?thesis by blast
  qed
qed

lemma split_objects_group:
  "object_pat (map ttype g) \<Longrightarrow> split_objects (g @ rest) = g # split_objects rest"
proof (induction g rule: induct_list012)
  case 1
  then show ?case by simp
next
  case (2 t)
  then show ?case by simp
next
  case (3 t u g)
  show ?case
  proof (cases "ttype u = SEMICOLON")
    case True
    with 3 show ?thesis by simp
  next
    case False
    with 3 show ?thesis by (cases g) auto
  qed
qed

lemma split_objects_groups: "list_all is_group gs \<Longrightarrow> split_objects (concat gs) = gs"
  by (induction gs) (simp_all add: split_objects_group is_group_def)

text \<open>Stripping.\<close>

lemma set_strip: "set (strip w) \<subseteq> set w"
proof -
  have "set (dropWhile isspace (rev (dropWhile isspace w))) \<subseteq> set (rev (dropWhile isspace w))"
    by (auto dest: set_dropWhileD)
  also have "\<dots> \<subseteq> set w" by (auto dest: set_dropWhileD)
  finally show ?thesis by (simp add: strip_def)
qed

lemma last_dropWhile: "dropWhile P xs \<noteq> [] \<Longrightarrow> last (dropWhile P xs) = last xs"
  by (induction xs) (auto split: if_splits)

lemma strip_ends:
  assumes "strip w \<noteq> []"
  shows "\<not> isspace (hd (strip w)) \<and> \<not> isspace (last (strip w))"
proof -
  define a where "a = dropWhile isspace w"
  define b where "b = dropWhile isspace (rev a)"
  have s: "strip w = rev b" by (simp add: strip_def a_def b_def)
  with assms have b: "b \<noteq> []" by simp
  then have ra: "rev a \<noteq> []" by (auto simp: b_def)
  then have a: "a \<noteq> []" by simp
  have "\<not> isspace (hd b)" using b hd_dropWhile [of isspace "rev a"] by (simp add: b_def)
  moreover have "last b = last (rev a)" using b by (simp add: b_def last_dropWhile)
  moreover have "last (rev a) = hd a" using a by (simp add: last_rev)
  moreover have "\<not> isspace (hd a)" using a hd_dropWhile [of isspace w] by (simp add: a_def)
  ultimately show ?thesis using b by (simp add: s hd_rev last_rev)
qed

lemma strip_wf_field:
  assumes "list_all valuechar w" and "strip w \<noteq> []"
  shows "wf_field (strip w)"
proof -
  have "list_all valuechar (strip w)"
    using assms(1) set_strip [of w] by (auto simp: list_all_iff)
  then have "CHR ''!'' \<notin> set (strip w)" "CHR '','' \<notin> set (strip w)" "CHR '';'' \<notin> set (strip w)"
    "LF \<notin> set (strip w)"
    by (auto simp: list_all_iff valuechar_iff)
  with assms(2) strip_ends [OF assms(2)] show ?thesis by (simp add: wf_field_def)
qed

lemma strip_idem: "strip (strip w) = strip w"
proof (cases "strip w = []")
  case True
  have "strip [] = []" by (simp add: strip_def)
  with True show ?thesis by simp
next
  case False
  from strip_ends [OF False] obtain c r where c: "strip w = c # r" "\<not> isspace c"
    using False by (cases "strip w") auto
  from strip_ends [OF False] False obtain e q where e: "rev (strip w) = e # q" "\<not> isspace e"
    by (cases "rev (strip w)") (auto simp: hd_rev)
  have "dropWhile isspace (strip w) = strip w" using c by simp
  moreover have "dropWhile isspace (rev (strip w)) = rev (strip w)" using e by simp
  ultimately show ?thesis by (simp add: strip_def [of "strip w"])
qed

text \<open>The objects of a successful parse.\<close>

lemma object_of_group_nonempty: "is_group g \<Longrightarrow> object_of g \<noteq> []"
  by (cases "map ttype g" rule: object_pat.cases) (auto simp: is_group_def object_of_def)

lemma object_of_fields:
  assumes "list_all token_ok g" and "v \<in> set (object_of g)"
  shows "v = [] \<or> wf_field v"
proof -
  from assms(2) obtain t where t: "t \<in> set g" "ttype t = VALUE" "v = strip (tvalue t)"
    by (auto simp: object_of_def)
  with assms(1) have "list_all valuechar (tvalue t)"
    by (auto simp: list_all_iff token_ok_def)
  then show ?thesis using strip_wf_field t(3) by blast
qed

lemma parse_objects:
  assumes "parse s = Inr D" and "lexer_tokens 1 s = map Inr toks"
  shows "D = aggregate (map object_of (split_objects toks)) \<and>
         list_all is_group (split_objects toks) \<and> split_objects toks \<noteq> [] \<and>
         concat (split_objects toks) = toks"
proof -
  from assms obtain objs where o: "idfobjectlist (map Inr toks) = Inr objs"
    and D: "p_idffile objs = Inr D"
    by (auto simp: parse_def idffile_def split: sum.splits)
  from idfobjectlist_sound [OF o] obtain gs where gs: "(map Inr toks :: lexitems) = map Inr (concat gs)"
    "gs \<noteq> []" "list_all is_group gs" "objs = map object_of gs"
    by blast
  from gs(1) have toks: "toks = concat gs"
    by (simp add: inj_map_eq_map)
  have sp: "split_objects toks = gs"
    using gs(3) by (simp add: toks split_objects_groups)
  have "list_all (\<lambda>x. x \<noteq> []) objs"
    using gs(3,4) by (auto simp: list_all_iff object_of_group_nonempty)
  then have "p_idffile objs = Inr (aggregate objs)" by (rule p_idffile_aggregate)
  with D have "D = aggregate objs" by simp
  then show ?thesis using gs sp toks by simp
qed

text \<open>The parser fails with a syntax error only.\<close>

lemma valuelist_error:
  "valuelist (map Inr g) = Inl e \<Longrightarrow> is_syntax_error e"
proof (induction g rule: induct_list012)
  case 1
  then show ?case by (auto simp: is_syntax_error_def p_error_def)
next
  case (2 t)
  then show ?case by (auto simp: is_syntax_error_def p_error_def split: if_splits)
next
  case (3 t u g)
  then show ?case
    by (auto simp: is_syntax_error_def p_error_def split: if_splits sum.splits)
qed

lemma expect_SEMICOLON_error:
  "expect_SEMICOLON (map Inr g) = Inl e \<Longrightarrow> is_syntax_error e"
  by (cases g) (auto simp: is_syntax_error_def p_error_def split: if_splits)

lemma idfobject_error:
  assumes "idfobject (map Inr g) = Inl e"
  shows "is_syntax_error e"
proof (cases g)
  case Nil
  with assms show ?thesis by (auto simp: is_syntax_error_def p_error_def)
next
  case (Cons t q)
  show ?thesis
  proof (cases q)
    case Nil
    with assms Cons show ?thesis
      by (auto simp: is_syntax_error_def p_error_def split: if_splits)
  next
    case (Cons u g')
    show ?thesis
    proof (cases "ttype t = VALUE \<and> ttype u = COMMA")
      case False
      with assms Cons \<open>g = t # q\<close> show ?thesis
        by (auto simp: is_syntax_error_def p_error_def split: if_splits)
    next
      case True
      show ?thesis
      proof (cases "valuelist (map Inr g')")
        case (Inl e')
        with assms Cons \<open>g = t # q\<close> True have "e = e'" by simp
        with Inl show ?thesis using valuelist_error by blast
      next
        case (Inr a)
        obtain p3 r1 where a: "a = (p3, r1)" by (cases a)
        from valuelist_sound [OF Inr [unfolded a]] obtain h where "(map Inr g' :: lexitems) = map Inr h @ r1"
          by blast
        then obtain k where "r1 = map Inr k"
          by (metis map_eq_append_conv)
        with assms Cons \<open>g = t # q\<close> True Inr a show ?thesis
          using expect_SEMICOLON_error [of k e] by (auto split: sum.splits)
      qed
    qed
  qed
qed

lemma idfobjectlist_error:
  "idfobjectlist (map Inr toks) = Inl e \<Longrightarrow> is_syntax_error e"
proof (induction "length toks" arbitrary: toks rule: less_induct)
  case less
  show ?case
  proof (cases "idfobject (map Inr toks)")
    case (Inl e')
    with less.prems have "e = e'" by (subst (asm) idfobjectlist.simps) simp
    with Inl show ?thesis using idfobject_error by blast
  next
    case (Inr a)
    obtain p1 rest where a: "a = (p1, rest)" by (cases a)
    from idfobject_sound [OF Inr [unfolded a]] obtain g where g: "(map Inr toks :: lexitems) = map Inr g @ rest"
      by blast
    then obtain k where k: "rest = map Inr k" by (metis map_eq_append_conv)
    have "length rest < length (map Inr toks :: lexitems)"
      by (rule idfobject_shorter [OF Inr [unfolded a]])
    then have len: "length k < length toks" by (simp add: k)
    from less.prems Inr a have "rest \<noteq> []" and "idfobjectlist rest = Inl e"
      by (subst (asm) idfobjectlist.simps, auto split: if_splits sum.splits)+
    then show ?thesis using less.hyps [OF len] k by simp
  qed
qed

lemma parse_error: "parse s = Inl e \<Longrightarrow> is_syntax_error e"
proof -
  assume a: "parse s = Inl e"
  obtain toks where t: "lexer_tokens 1 s = map Inr toks"
    using lexer_tokens_all_tokens by blast
  show ?thesis
  proof (cases "idfobjectlist (map Inr toks)")
    case (Inl e')
    with a t have "e = e'" by (simp add: parse_def idffile_def)
    with Inl show ?thesis using idfobjectlist_error by blast
  next
    case (Inr objs)
    from idfobjectlist_sound [OF Inr] obtain gs where "list_all is_group gs" "objs = map object_of gs"
      by blast
    then have "list_all (\<lambda>x. x \<noteq> []) objs"
      by (auto simp: list_all_iff object_of_group_nonempty)
    then have "p_idffile objs = Inr (aggregate objs)" by (rule p_idffile_aggregate)
    with a t Inr show ?thesis by (simp add: parse_def idffile_def)
  qed
qed



text \<open>What a successful parse returns.\<close>

lemma parse_document_fields:
  assumes "parse s = Inr D"
  shows "grouped D \<and> D \<noteq> [] \<and>
         (\<forall>e \<in> set D. \<forall>x \<in> set (snd e). x \<noteq> [] \<and> (\<forall>v \<in> set x. v = [] \<or> wf_field v))"
proof -
  obtain toks where t: "lexer_tokens 1 s = map Inr toks" and ok: "list_all token_ok toks"
    using lexer_tokens_all_tokens by blast
  define gs where "gs = split_objects toks"
  define objs where "objs = map object_of gs"
  from parse_objects [OF assms t] have D: "D = aggregate objs" and g: "list_all is_group gs"
    and ne: "gs \<noteq> []" and c: "concat gs = toks"
    by (simp_all add: gs_def objs_def)
  have nonempty: "list_all (\<lambda>x. x \<noteq> []) objs"
    using g by (auto simp: objs_def list_all_iff object_of_group_nonempty)
  have gr: "grouped D" unfolding D by (rule aggregate_grouped [OF nonempty])
  have "mset (concat (map snd D)) = mset objs" by (simp add: D mset_aggregate)
  then have set: "set (concat (map snd D)) = set objs" by (rule mset_eq_setD)
  have "D \<noteq> []" using set ne by (auto simp: objs_def)
  moreover have "x \<noteq> [] \<and> (\<forall>v \<in> set x. v = [] \<or> wf_field v)"
    if "e \<in> set D" and "x \<in> set (snd e)" for e x
  proof -
    from that have "x \<in> set objs" using set by auto
    then obtain h where h: "h \<in> set gs" "x = object_of h" by (auto simp: objs_def)
    then have "set h \<subseteq> set toks" using c by auto
    with ok have "list_all token_ok h" by (auto simp: list_all_iff)
    with h g show ?thesis
      using object_of_fields [of h] object_of_group_nonempty [of h] by (auto simp: list_all_iff)
  qed
  ultimately show ?thesis using gr by blast
qed

lemma grouped_lookup: "grouped D \<Longrightarrow> (k, xs) \<in> set D \<Longrightarrow> map_of D k = Some xs"
  by (simp add: grouped_def)

lemma aggregate_single: "x \<noteq> [] \<Longrightarrow> aggregate [x] = [(upper (hd x), [x])]"
  by (simp add: aggregate_def objkey_def)



section \<open>One object\<close>

text \<open>
  C1. The text \<^verbatim>\<open>name, v1, ..., vn;\<close> of well-formed fields parses to the document that
  maps the uppercased name to the single object \<open>[name, v1, ..., vn]\<close>: the name keeps its
  case and the values their order. With no values the object is \<open>[name]\<close>, of length 1.
  The third conjunct is the spec's example; in the last one the name has a sharp s, and
  the key is the longer \<^verbatim>\<open>STRASSE\<close>.
\<close>

theorem parse_single_object:
  "(wf_field name \<and> list_all wf_field vs \<longrightarrow>
      parse (serialize_object (name # vs)) = Inr [(upper name, [name # vs])]) \<and>
   (wf_field name \<longrightarrow> parse (name @ '';'') = Inr [(upper name, [[name]])]) \<and>
   parse ''Material, Brick, 0.5, 0.8;'' =
     Inr [(codepoints ''MATERIAL'', [[''Material'', ''Brick'', ''0.5'', ''0.8'']])] \<and>
   parse (''stra'' @ [CHR 0xDF] @ ''e, 1;'') =
     Inr [(codepoints ''STRASSE'', [[''stra'' @ [CHR 0xDF] @ ''e'', ''1'']])]"
proof -
  have g: "parse (serialize_object (n # ws)) = Inr [(upper n, [n # ws])]"
    if "wf_field n" and "list_all wf_field ws" for n ws
  proof -
    have "parse (serialize [n # ws]) = Inr (aggregate [n # ws])"
      by (rule parse_serialize) (use that in simp_all)
    then show ?thesis by (simp add: serialize_def aggregate_single)
  qed
  have "parse (name @ '';'') = Inr [(upper name, [[name]])]" if "wf_field name"
    using g [OF that, of "[]"] by (simp add: serialize_object_def)
  moreover have "parse ''Material, Brick, 0.5, 0.8;'' =
      Inr [(codepoints ''MATERIAL'', [[''Material'', ''Brick'', ''0.5'', ''0.8'']])]"
    by code_simp
  moreover have "parse (''stra'' @ [CHR 0xDF] @ ''e, 1;'') =
      Inr [(codepoints ''STRASSE'', [[''stra'' @ [CHR 0xDF] @ ''e'', ''1'']])]"
    by code_simp
  ultimately show ?thesis using g by blast
qed

text \<open>
  The theorem at the object \<^verbatim>\<open>Zone, Kitchen, 15;\<close>.
\<close>

theorem parse_single_object_witness:
  "wf_field ''Zone'' \<and> list_all wf_field [''Kitchen'', ''15''] \<and>
   parse (serialize_object [''Zone'', ''Kitchen'', ''15'']) =
     Inr [(codepoints ''ZONE'', [[''Zone'', ''Kitchen'', ''15'']])]"
proof -
  have w: "wf_field ''Zone'' \<and> list_all wf_field [''Kitchen'', ''15'']"
    by (simp add: wf_field_def isspace_def)
  have u: "upper ''Zone'' = codepoints ''ZONE''"
    by code_simp
  from parse_single_object [of "''Zone''" "[''Kitchen'', ''15'']", THEN conjunct1, THEN mp, OF w]
  show ?thesis using w u by simp
qed


section \<open>Line numbers\<close>

text \<open>
  C2. A comment that consumes newline characters should advance the line counter by the
  number of newlines consumed, so that a later error reports the right line. In the input
  below the comment rule consumes the newline before \<open>!\<close>; the \<open>;\<close> stands on line 3 of
  the input, and the error names line 2: \<^verbatim>\<open>t_COMMENT\<close> adds the newlines to the line of
  the token it drops, not to the lexer's counter.
\<close>

theorem comment_newlines_not_counted:
  "parse ([LF] @ ''! c'' @ [LF] @ '';'') = Inl (SyntaxErrorAtToken '';'' 2)"
  by code_simp

text \<open>
  C3. A newline run should advance the line counter by the number of newlines matched. In
  the input below the run is one carriage return and one newline; the \<open>;\<close> stands on
  line 2 of the input, and the error names line 3: \<^verbatim>\<open>t_newline\<close> adds the length of the
  matched text.
\<close>

theorem newline_run_counts_characters:
  "parse ([CR, LF] @ '';'') = Inl (SyntaxErrorAtToken '';'' 3)"
  by code_simp

section \<open>The round trip\<close>

text \<open>
  C4, as amended. A document returned by a successful parse in which no type name and no
  field value is the empty string is returned again when its objects are serialised, each
  as \<^verbatim>\<open>name, v1, ..., vn;\<close>, joined by newlines and parsed.
\<close>

theorem roundtrip_nonempty_fields:
  assumes "parse s = Inr D" and "no_empty_field D"
  shows "parse (serialize_document D) = Inr D"
proof -
  from parse_document_fields [OF assms(1)] have gr: "grouped D" and ne: "D \<noteq> []"
    and f: "\<forall>e \<in> set D. \<forall>x \<in> set (snd e). x \<noteq> [] \<and> (\<forall>v \<in> set x. v = [] \<or> wf_field v)"
    by blast+
  define objs where "objs = concat (map snd D)"
  from gr ne have "objs \<noteq> []"
    by (cases D) (auto simp: grouped_def objs_def)
  moreover have "list_all (\<lambda>x. x \<noteq> [] \<and> list_all wf_field x) objs"
    using f assms(2) by (auto simp: objs_def list_all_iff no_empty_field_def)
  ultimately have "parse (serialize objs) = Inr (aggregate objs)"
    by (rule parse_serialize)
  then show ?thesis
    using aggregate_regroup [OF gr] by (simp add: serialize_document_def objs_def)
qed

text \<open>
  The claim as stated, for every document of a successful parse, fails: the document of
  \<^verbatim>\<open>"Material,\r,0.5;"\<close> has an empty field value, its serialisation is
  \<^verbatim>\<open>"Material, , 0.5;"\<close>, and parsing that stops at the second comma.
\<close>

theorem roundtrip_counterexample:
  "\<not> (\<forall>s D. parse s = Inr D \<longrightarrow> parse (serialize_document D) = Inr D)"
proof
  assume a: "\<forall>s D. parse s = Inr D \<longrightarrow> parse (serialize_document D) = Inr D"
  have p: "parse (''Material,'' @ [CR] @ '',0.5;'') =
      Inr [(codepoints ''MATERIAL'', [[''Material'', [], ''0.5'']])]"
    by code_simp
  have q: "parse (serialize_document [(codepoints ''MATERIAL'', [[''Material'', [], ''0.5'']])]) =
      Inl (SyntaxErrorAtToken '', '' 1)"
    by code_simp
  from a p have "parse (serialize_document [(codepoints ''MATERIAL'', [[''Material'', [], ''0.5'']])]) =
      Inr [(codepoints ''MATERIAL'', [[''Material'', [], ''0.5'']])]"
    by blast
  with q show False by simp
qed

text \<open>
  The amended law at a document of two types and three objects.
\<close>

theorem roundtrip_nonempty_fields_witness:
  "parse (''Zone, LivingRoom, 20;'' @ [LF] @ ''Building, MyHouse;'' @ [LF] @ ''Zone, Kitchen, 15;'') =
     Inr [(codepoints ''ZONE'', [[''Zone'', ''LivingRoom'', ''20''], [''Zone'', ''Kitchen'', ''15'']]),
          (codepoints ''BUILDING'', [[''Building'', ''MyHouse'']])] \<and>
   no_empty_field [(codepoints ''ZONE'', [[''Zone'', ''LivingRoom'', ''20''], [''Zone'', ''Kitchen'', ''15'']]),
          (codepoints ''BUILDING'', [[''Building'', ''MyHouse'']])] \<and>
   parse (serialize_document
       [(codepoints ''ZONE'', [[''Zone'', ''LivingRoom'', ''20''], [''Zone'', ''Kitchen'', ''15'']]),
        (codepoints ''BUILDING'', [[''Building'', ''MyHouse'']])]) =
     Inr [(codepoints ''ZONE'', [[''Zone'', ''LivingRoom'', ''20''], [''Zone'', ''Kitchen'', ''15'']]),
          (codepoints ''BUILDING'', [[''Building'', ''MyHouse'']])]"
proof -
  have p: "parse (''Zone, LivingRoom, 20;'' @ [LF] @ ''Building, MyHouse;'' @ [LF] @ ''Zone, Kitchen, 15;'') =
     Inr [(codepoints ''ZONE'', [[''Zone'', ''LivingRoom'', ''20''], [''Zone'', ''Kitchen'', ''15'']]),
          (codepoints ''BUILDING'', [[''Building'', ''MyHouse'']])]"
    by code_simp
  have n: "no_empty_field [(codepoints ''ZONE'', [[''Zone'', ''LivingRoom'', ''20''], [''Zone'', ''Kitchen'', ''15'']]),
          (codepoints ''BUILDING'', [[''Building'', ''MyHouse'']])]"
    by (simp add: no_empty_field_def)
  from roundtrip_nonempty_fields [OF p n] p n show ?thesis by blast
qed

section \<open>Syntax errors\<close>

text \<open>
  The errors of the parser. An input without tokens (empty, or comments only), and an
  input whose tokens are complete objects followed by an unfinished one (a proper prefix
  of the tokens of an object), fail with the syntax error of the end of input. An input
  whose tokens are complete objects, then a possibly empty unfinished object, then a
  token \<open>t\<close> that continues no object, fails with the syntax error that names the text of
  \<open>t\<close> and the line number that the lexer stored in \<open>t\<close>. The result is an error in each
  case, never a document.
\<close>

theorem parse_syntax_errors:
  "(lexer_tokens 1 s = [] \<longrightarrow> parse s = Inl SyntaxErrorAtEOF) \<and>
   (lexer_tokens 1 s = map Inr (concat gs @ p) \<and> list_all is_group gs \<and> p \<noteq> [] \<and>
    object_pat q \<and> strict_prefix (map ttype p) q \<longrightarrow> parse s = Inl SyntaxErrorAtEOF) \<and>
   (lexer_tokens 1 s = map Inr (concat gs @ p @ t # rest) \<and> list_all is_group gs \<and>
    object_pat q \<and> strict_prefix (map ttype p) q \<and>
    \<not> (\<exists>q'. object_pat q' \<and> prefix (map ttype (p @ [t])) q') \<longrightarrow>
      parse s = Inl (SyntaxErrorAtToken (tvalue t) (tlineno t))) \<and>
   parse '''' = Inl SyntaxErrorAtEOF \<and>
   parse ''! only a comment'' = Inl SyntaxErrorAtEOF \<and>
   parse ''Material, Brick, 0.5, 0.8'' = Inl SyntaxErrorAtEOF"
proof -
  have 1: "parse s = Inl SyntaxErrorAtEOF" if "lexer_tokens 1 s = []"
    using that by (simp add: parse_def idffile_def idfobjectlist_Nil)
  have 2: "parse s = Inl SyntaxErrorAtEOF"
    if t: "lexer_tokens 1 s = map Inr (concat gs @ p)" and g: "list_all is_group gs"
      and p: "p \<noteq> []" and q: "object_pat q" "strict_prefix (map ttype p) q"
  proof -
    from q have "partial_pat (map ttype p)" using partial_pat_iff by blast
    then have "idfobject (map Inr p) = Inl SyntaxErrorAtEOF" by (rule idfobject_partial)
    moreover have "(map Inr p :: lexitems) \<noteq> []" using p by simp
    ultimately have "idfobjectlist (map Inr (concat gs) @ map Inr p) = Inl SyntaxErrorAtEOF"
      by (rule idfobjectlist_groups_error [OF g])
    then show ?thesis using t by (simp add: parse_def idffile_def)
  qed
  have 3: "parse s = Inl (SyntaxErrorAtToken (tvalue t) (tlineno t))"
    if t: "lexer_tokens 1 s = map Inr (concat gs @ p @ t # rest)" and g: "list_all is_group gs"
      and q: "object_pat q" "strict_prefix (map ttype p) q"
      and n: "\<not> (\<exists>q'. object_pat q' \<and> prefix (map ttype (p @ [t])) q')"
  proof -
    from q have a: "partial_pat (map ttype p)" using partial_pat_iff by blast
    from n have b: "\<not> partial_pat (map ttype (p @ [t]))" "\<not> object_pat (map ttype (p @ [t]))"
      using viable_iff [of "map ttype (p @ [t])"] by blast+
    have "idfobject (map Inr (p @ t # rest)) = Inl (p_error (Some t))"
      by (rule idfobject_reject [OF a b])
    moreover have "(map Inr (p @ t # rest) :: lexitems) \<noteq> []" by simp
    ultimately have "idfobjectlist (map Inr (concat gs) @ map Inr (p @ t # rest)) =
        Inl (p_error (Some t))"
      by (rule idfobjectlist_groups_error [OF g])
    then show ?thesis using t by (simp add: parse_def idffile_def p_error_def)
  qed
  have 4: "parse '''' = Inl SyntaxErrorAtEOF" by code_simp
  have 5: "parse ''! only a comment'' = Inl SyntaxErrorAtEOF" by code_simp
  have 6: "parse ''Material, Brick, 0.5, 0.8'' = Inl SyntaxErrorAtEOF" by code_simp
  from 1 2 3 4 5 6 show ?thesis by blast
qed

text \<open>
  The theorem at a comment, at \<^verbatim>\<open>A;B,\<close> (the input ends inside the second object) and
  at an input whose second line is \<^verbatim>\<open>B, ;\<close> (a semicolon where a value must stand).
\<close>

theorem parse_syntax_errors_witness:
  "lexer_tokens 1 ''! c'' = [] \<and> parse ''! c'' = Inl SyntaxErrorAtEOF \<and>
   lexer_tokens 1 ''A;B,'' =
     map Inr (concat [[\<lparr>ttype = VALUE, tvalue = ''A'', tlineno = 1\<rparr>,
                       \<lparr>ttype = SEMICOLON, tvalue = '';'', tlineno = 1\<rparr>]] @
              [\<lparr>ttype = VALUE, tvalue = ''B'', tlineno = 1\<rparr>,
               \<lparr>ttype = COMMA, tvalue = '','', tlineno = 1\<rparr>]) \<and>
   list_all is_group [[\<lparr>ttype = VALUE, tvalue = ''A'', tlineno = 1\<rparr>,
                       \<lparr>ttype = SEMICOLON, tvalue = '';'', tlineno = 1\<rparr>]] \<and>
   object_pat [VALUE, COMMA, VALUE, SEMICOLON] \<and>
   strict_prefix (map ttype [\<lparr>ttype = VALUE, tvalue = ''B'', tlineno = 1\<rparr>,
                             \<lparr>ttype = COMMA, tvalue = '','', tlineno = 1\<rparr>])
     [VALUE, COMMA, VALUE, SEMICOLON] \<and>
   parse ''A;B,'' = Inl SyntaxErrorAtEOF \<and>
   lexer_tokens 1 (''A;'' @ [LF] @ ''B, ;'') =
     map Inr (concat [[\<lparr>ttype = VALUE, tvalue = ''A'', tlineno = 1\<rparr>,
                       \<lparr>ttype = SEMICOLON, tvalue = '';'', tlineno = 1\<rparr>]] @
              [\<lparr>ttype = VALUE, tvalue = ''B'', tlineno = 2\<rparr>,
               \<lparr>ttype = COMMA, tvalue = '', '', tlineno = 2\<rparr>] @
              \<lparr>ttype = SEMICOLON, tvalue = '';'', tlineno = 2\<rparr> # []) \<and>
   strict_prefix (map ttype [\<lparr>ttype = VALUE, tvalue = ''B'', tlineno = 2\<rparr>,
                             \<lparr>ttype = COMMA, tvalue = '', '', tlineno = 2\<rparr>])
     [VALUE, COMMA, VALUE, SEMICOLON] \<and>
   \<not> (\<exists>q'. object_pat q' \<and>
         prefix (map ttype ([\<lparr>ttype = VALUE, tvalue = ''B'', tlineno = 2\<rparr>,
                             \<lparr>ttype = COMMA, tvalue = '', '', tlineno = 2\<rparr>] @
                            [\<lparr>ttype = SEMICOLON, tvalue = '';'', tlineno = 2\<rparr>])) q') \<and>
   parse (''A;'' @ [LF] @ ''B, ;'') = Inl (SyntaxErrorAtToken '';'' 2)"
proof -
  let ?A = "\<lparr>ttype = VALUE, tvalue = ''A'', tlineno = 1\<rparr>"
  let ?S = "\<lparr>ttype = SEMICOLON, tvalue = '';'', tlineno = 1\<rparr>"
  let ?B = "\<lparr>ttype = VALUE, tvalue = ''B'', tlineno = 1\<rparr>"
  let ?C = "\<lparr>ttype = COMMA, tvalue = '','', tlineno = 1\<rparr>"
  let ?B2 = "\<lparr>ttype = VALUE, tvalue = ''B'', tlineno = 2\<rparr>"
  let ?C2 = "\<lparr>ttype = COMMA, tvalue = '', '', tlineno = 2\<rparr>"
  let ?S2 = "\<lparr>ttype = SEMICOLON, tvalue = '';'', tlineno = 2\<rparr>"
  let ?q = "[VALUE, COMMA, VALUE, SEMICOLON]"
  have a: "lexer_tokens 1 ''! c'' = []" by code_simp
  have b1: "lexer_tokens 1 ''A;B,'' = map Inr (concat [[?A, ?S]] @ [?B, ?C])" by code_simp
  have g: "list_all is_group [[?A, ?S]]" by (simp add: is_group_def)
  have q: "object_pat ?q" by simp
  have b2: "strict_prefix (map ttype [?B, ?C]) ?q" by simp
  have c1: "lexer_tokens 1 (''A;'' @ [LF] @ ''B, ;'') =
      map Inr (concat [[?A, ?S]] @ [?B2, ?C2] @ ?S2 # [])" by code_simp
  have c2: "strict_prefix (map ttype [?B2, ?C2]) ?q" by simp
  have c3: "\<not> (\<exists>q'. object_pat q' \<and> prefix (map ttype ([?B2, ?C2] @ [?S2])) q')"
    using viable_iff [of "map ttype ([?B2, ?C2] @ [?S2])"] by simp
  note t1 = parse_syntax_errors [where s = "''! c''", THEN conjunct1, THEN mp, OF a]
  have h2: "lexer_tokens 1 ''A;B,'' = map Inr (concat [[?A, ?S]] @ [?B, ?C]) \<and>
      list_all is_group [[?A, ?S]] \<and> [?B, ?C] \<noteq> [] \<and> object_pat ?q \<and>
      strict_prefix (map ttype [?B, ?C]) ?q"
    using b1 g q b2 by blast
  note t2 = parse_syntax_errors [where s = "''A;B,''" and gs = "[[?A, ?S]]" and p = "[?B, ?C]"
      and q = ?q, THEN conjunct2, THEN conjunct1, THEN mp, OF h2]
  have h3: "lexer_tokens 1 (''A;'' @ [LF] @ ''B, ;'') =
        map Inr (concat [[?A, ?S]] @ [?B2, ?C2] @ ?S2 # []) \<and>
      list_all is_group [[?A, ?S]] \<and> object_pat ?q \<and> strict_prefix (map ttype [?B2, ?C2]) ?q \<and>
      \<not> (\<exists>q'. object_pat q' \<and> prefix (map ttype ([?B2, ?C2] @ [?S2])) q')"
    using c1 g q c2 c3 by blast
  note t3 = parse_syntax_errors [where s = "''A;'' @ [LF] @ ''B, ;''" and gs = "[[?A, ?S]]"
      and p = "[?B2, ?C2]" and t = ?S2 and rest = "[]" and q = ?q,
      THEN conjunct2, THEN conjunct2, THEN conjunct1, THEN mp, OF h3]
  have t3': "parse (''A;'' @ [LF] @ ''B, ;'') = Inl (SyntaxErrorAtToken '';'' 2)"
    using t3 by simp
  from a t1 b1 g q b2 t2 c1 c2 c3 t3' show ?thesis by blast
qed

text \<open>
  C5. A token that continues no object should be reported with its text and with the
  line on which it stands. In the input below, the comma that cannot follow the semicolon
  stands on line 3, after two newlines; the error names its text and line 2, the number
  the lexer stored in the token: the comment rule consumed the first newline without
  counting it.
\<close>

theorem syntax_error_names_wrong_line:
  "parse ((''Zone, Kitchen;'' @ [LF] @ ''! rooms'' @ [LF]) @ '', 15;'') =
     Inl (SyntaxErrorAtToken '', '' 2) \<and>
   1 + length (filter (\<lambda>c. c = LF) (''Zone, Kitchen;'' @ [LF] @ ''! rooms'' @ [LF])) = 3"
proof -
  have "parse ((''Zone, Kitchen;'' @ [LF] @ ''! rooms'' @ [LF]) @ '', 15;'') =
      Inl (SyntaxErrorAtToken '', '' 2)"
    by code_simp
  then show ?thesis by simp
qed

section \<open>Illegal characters\<close>

text \<open>
  C6, as amended. No character is left unmatched by the lexer rules: the master pattern
  fails on the empty rest of the input only, so the lexer returns tokens on every input
  and \<^verbatim>\<open>parse\<close> never fails with the illegal-character error. The input of the spec's
  example, which ends in \<^verbatim>\<open>$\<close>, fails with the syntax error of the end of input.
\<close>

theorem lexer_accepts_every_character:
  "(lexre s = None) = (s = []) \<and>
   (\<exists>toks. lexer_tokens ln s = map Inr toks) \<and>
   parse s \<noteq> Inl (IllegalCharacter c n) \<and>
   parse ''Material, Brick, 0.5, 0.8; $'' = Inl SyntaxErrorAtEOF"
proof -
  have 1: "(lexre s = None) = (s = [])" by (rule lexre_total)
  have 2: "\<exists>toks. lexer_tokens ln s = map Inr toks"
    using lexer_tokens_all_tokens [of ln s] by blast
  have 3: "parse s \<noteq> Inl (IllegalCharacter c n)"
    using parse_error [of s "IllegalCharacter c n"] by (auto simp: is_syntax_error_def)
  have 4: "parse ''Material, Brick, 0.5, 0.8; $'' = Inl SyntaxErrorAtEOF" by code_simp
  from 1 2 3 4 show ?thesis by blast
qed

text \<open>
  The claim as stated names \<^verbatim>\<open>$\<close> as a character that no rule matches, and a lexical
  error for it. The \<open>VALUE\<close> rule matches \<^verbatim>\<open>$\<close>, and the example fails with another
  error than the illegal-character one.
\<close>

theorem dollar_is_a_value:
  "lexre ''$'' = Some (VALUE, ''$'', []) \<and>
   parse ''Material, Brick, 0.5, 0.8; $'' = Inl SyntaxErrorAtEOF \<and>
   (\<forall>n. parse ''Material, Brick, 0.5, 0.8; $'' \<noteq> Inl (IllegalCharacter (CHR ''$'') n))"
proof -
  have 1: "lexre ''$'' = Some (VALUE, ''$'', [])" by code_simp
  have 2: "parse ''Material, Brick, 0.5, 0.8; $'' = Inl SyntaxErrorAtEOF" by code_simp
  from 1 2 show ?thesis by simp
qed

section \<open>Aggregation\<close>

text \<open>
  C7. The objects of a token sequence are its groups of tokens up to each semicolon, in
  the order of the text. In the document of a successful parse, the list stored under a
  key is the list of those objects whose uppercased type name is the key, in that order.
  For a serialised list of well-formed objects it is the sublist of the objects of that
  key. The third conjunct is the spec's example; in the last one the two names are a
  small and a capital e with an acute accent, and both objects stand under the capital.
\<close>

theorem same_type_objects_keep_source_order:
  "(parse s = Inr D \<and> lexer_tokens 1 s = map Inr toks \<and> (k, xs) \<in> set D \<longrightarrow>
      xs = filter (\<lambda>x. objkey x = k) (map object_of (split_objects toks))) \<and>
   (objs \<noteq> [] \<and> list_all (\<lambda>x. x \<noteq> [] \<and> list_all wf_field x) objs \<and> y \<in> set objs \<longrightarrow>
      (\<exists>D'. parse (serialize objs) = Inr D' \<and>
            (objkey y, filter (\<lambda>x. objkey x = objkey y) objs) \<in> set D')) \<and>
   parse (''Zone, LivingRoom, 20;'' @ [LF] @ ''Zone, Kitchen, 15;'') =
     Inr [(codepoints ''ZONE'', [[''Zone'', ''LivingRoom'', ''20''], [''Zone'', ''Kitchen'', ''15'']])] \<and>
   parse ([CHR 0xE9] @ '', 1;'' @ [CHR 0xC9] @ '', 2;'') =
     Inr [([201], [[[CHR 0xE9], ''1''], [[CHR 0xC9], ''2'']])]"
proof -
  have 1: "xs = filter (\<lambda>x. objkey x = k) (map object_of (split_objects toks))"
    if p: "parse s = Inr D" and t: "lexer_tokens 1 s = map Inr toks" and m: "(k, xs) \<in> set D"
  proof -
    from parse_objects [OF p t] have D: "D = aggregate (map object_of (split_objects toks))"
      by simp
    from parse_document_fields [OF p] have "grouped D" by simp
    then have "map_of D k = Some xs" using m by (rule grouped_lookup)
    then show ?thesis by (simp add: D map_of_aggregate split: if_splits)
  qed
  have 2: "\<exists>D'. parse (serialize objs) = Inr D' \<and>
            (objkey y, filter (\<lambda>x. objkey x = objkey y) objs) \<in> set D'"
    if ne: "objs \<noteq> []" and ok: "list_all (\<lambda>x. x \<noteq> [] \<and> list_all wf_field x) objs"
      and y: "y \<in> set objs"
  proof -
    have "parse (serialize objs) = Inr (aggregate objs)" by (rule parse_serialize [OF ne ok])
    moreover have "filter (\<lambda>x. objkey x = objkey y) objs \<noteq> []"
      using y by (auto simp: filter_empty_conv)
    then have "map_of (aggregate objs) (objkey y) = Some (filter (\<lambda>x. objkey x = objkey y) objs)"
      by (simp add: map_of_aggregate)
    then have "(objkey y, filter (\<lambda>x. objkey x = objkey y) objs) \<in> set (aggregate objs)"
      by (rule map_of_SomeD)
    ultimately show ?thesis by blast
  qed
  have 3: "parse (''Zone, LivingRoom, 20;'' @ [LF] @ ''Zone, Kitchen, 15;'') =
     Inr [(codepoints ''ZONE'', [[''Zone'', ''LivingRoom'', ''20''], [''Zone'', ''Kitchen'', ''15'']])]"
    by code_simp
  have 4: "parse ([CHR 0xE9] @ '', 1;'' @ [CHR 0xC9] @ '', 2;'') =
     Inr [([201], [[[CHR 0xE9], ''1''], [[CHR 0xC9], ''2'']])]"
    by code_simp
  from 1 2 3 4 show ?thesis by blast
qed

text \<open>
  The theorem at \<^verbatim>\<open>a,1;A,2;\<close> and at three serialised objects of two types.
\<close>

theorem same_type_objects_keep_source_order_witness:
  "parse ''a,1;A,2;'' = Inr [(codepoints ''A'', [[''a'', ''1''], [''A'', ''2'']])] \<and>
   lexer_tokens 1 ''a,1;A,2;'' =
     map Inr [\<lparr>ttype = VALUE, tvalue = ''a'', tlineno = 1\<rparr>,
              \<lparr>ttype = COMMA, tvalue = '','', tlineno = 1\<rparr>,
              \<lparr>ttype = VALUE, tvalue = ''1'', tlineno = 1\<rparr>,
              \<lparr>ttype = SEMICOLON, tvalue = '';'', tlineno = 1\<rparr>,
              \<lparr>ttype = VALUE, tvalue = ''A'', tlineno = 1\<rparr>,
              \<lparr>ttype = COMMA, tvalue = '','', tlineno = 1\<rparr>,
              \<lparr>ttype = VALUE, tvalue = ''2'', tlineno = 1\<rparr>,
              \<lparr>ttype = SEMICOLON, tvalue = '';'', tlineno = 1\<rparr>] \<and>
   (codepoints ''A'', [[''a'', ''1''], [''A'', ''2'']]) \<in> set [(codepoints ''A'', [[''a'', ''1''], [''A'', ''2'']])] \<and>
   [[''a'', ''1''], [''A'', ''2'']] =
     filter (\<lambda>x. objkey x = codepoints ''A'')
       (map object_of (split_objects
          [\<lparr>ttype = VALUE, tvalue = ''a'', tlineno = 1\<rparr>,
           \<lparr>ttype = COMMA, tvalue = '','', tlineno = 1\<rparr>,
           \<lparr>ttype = VALUE, tvalue = ''1'', tlineno = 1\<rparr>,
           \<lparr>ttype = SEMICOLON, tvalue = '';'', tlineno = 1\<rparr>,
           \<lparr>ttype = VALUE, tvalue = ''A'', tlineno = 1\<rparr>,
           \<lparr>ttype = COMMA, tvalue = '','', tlineno = 1\<rparr>,
           \<lparr>ttype = VALUE, tvalue = ''2'', tlineno = 1\<rparr>,
           \<lparr>ttype = SEMICOLON, tvalue = '';'', tlineno = 1\<rparr>])) \<and>
   [[''a'', ''1''], [''B''], [''A'', ''2'']] \<noteq> [] \<and>
   list_all (\<lambda>x. x \<noteq> [] \<and> list_all wf_field x) [[''a'', ''1''], [''B''], [''A'', ''2'']] \<and>
   [''A'', ''2''] \<in> set [[''a'', ''1''], [''B''], [''A'', ''2'']] \<and>
   (\<exists>D'. parse (serialize [[''a'', ''1''], [''B''], [''A'', ''2'']]) = Inr D' \<and>
         (objkey [''A'', ''2''],
          filter (\<lambda>x. objkey x = objkey [''A'', ''2'']) [[''a'', ''1''], [''B''], [''A'', ''2'']])
           \<in> set D')"
proof -
  let ?toks = "[\<lparr>ttype = VALUE, tvalue = ''a'', tlineno = 1\<rparr>,
              \<lparr>ttype = COMMA, tvalue = '','', tlineno = 1\<rparr>,
              \<lparr>ttype = VALUE, tvalue = ''1'', tlineno = 1\<rparr>,
              \<lparr>ttype = SEMICOLON, tvalue = '';'', tlineno = 1\<rparr>,
              \<lparr>ttype = VALUE, tvalue = ''A'', tlineno = 1\<rparr>,
              \<lparr>ttype = COMMA, tvalue = '','', tlineno = 1\<rparr>,
              \<lparr>ttype = VALUE, tvalue = ''2'', tlineno = 1\<rparr>,
              \<lparr>ttype = SEMICOLON, tvalue = '';'', tlineno = 1\<rparr>]"
  let ?D = "[(codepoints ''A'', [[''a'', ''1''], [''A'', ''2'']])]"
  let ?objs = "[[''a'', ''1''], [''B''], [''A'', ''2'']]"
  have p: "parse ''a,1;A,2;'' = Inr ?D" by code_simp
  have t: "lexer_tokens 1 ''a,1;A,2;'' = map Inr ?toks" by code_simp
  have m: "(codepoints ''A'', [[''a'', ''1''], [''A'', ''2'']]) \<in> set ?D" by simp
  have h1: "parse ''a,1;A,2;'' = Inr ?D \<and> lexer_tokens 1 ''a,1;A,2;'' = map Inr ?toks \<and>
      (codepoints ''A'', [[''a'', ''1''], [''A'', ''2'']]) \<in> set ?D"
    using p t m by blast
  have o: "?objs \<noteq> [] \<and> list_all (\<lambda>x. x \<noteq> [] \<and> list_all wf_field x) ?objs \<and>
      [''A'', ''2''] \<in> set ?objs"
    by (simp add: wf_field_def isspace_def)
  note th = same_type_objects_keep_source_order [where s = "''a,1;A,2;''" and D = ?D
      and toks = ?toks and k = "codepoints ''A''" and xs = "[[''a'', ''1''], [''A'', ''2'']]"
      and objs = ?objs and y = "[''A'', ''2'']"]
  from th [THEN conjunct1, THEN mp, OF h1] th [THEN conjunct2, THEN conjunct1, THEN mp, OF o] h1 o
  show ?thesis by blast
qed

text \<open>
  C8. In the document of a successful parse the keys stand in the order in which each
  uppercased type name first occurs among the objects of the text; the objects of the
  document are the objects of the text, as many times as they occur there, and the list
  of every key is the list of the objects of that key in the order of the text. In the
  first example the key \<open>ZONE\<close> comes before \<open>BUILDING\<close>, and the object that is written
  twice is kept twice. In the second the names are a small e with an acute accent, \<open>a\<close>
  and the capital of the first: there are two keys, the capital (code point 201) first.
\<close>

theorem key_order_is_first_appearance:
  "(parse s = Inr D \<and> lexer_tokens 1 s = map Inr toks \<longrightarrow>
      map fst D = first_occurrences (map objkey (map object_of (split_objects toks))) \<and>
      mset (concat (map snd D)) = mset (map object_of (split_objects toks)) \<and>
      (\<forall>e \<in> set D. snd e = filter (\<lambda>x. objkey x = fst e) (map object_of (split_objects toks)))) \<and>
   parse ''Zone, 1;Building;zone, 2;Zone, 1;'' =
     Inr [(codepoints ''ZONE'', [[''Zone'', ''1''], [''zone'', ''2''], [''Zone'', ''1'']]),
          (codepoints ''BUILDING'', [[''Building'']])] \<and>
   parse ([CHR 0xE9] @ '';a;'' @ [CHR 0xC9] @ '';'') =
     Inr [([201], [[[CHR 0xE9]], [[CHR 0xC9]]]), (codepoints ''A'', [[''a'']])]"
proof -
  have 1: "map fst D = first_occurrences (map objkey (map object_of (split_objects toks))) \<and>
      mset (concat (map snd D)) = mset (map object_of (split_objects toks)) \<and>
      (\<forall>e \<in> set D. snd e = filter (\<lambda>x. objkey x = fst e) (map object_of (split_objects toks)))"
    if p: "parse s = Inr D" and t: "lexer_tokens 1 s = map Inr toks"
  proof -
    from parse_objects [OF p t] have D: "D = aggregate (map object_of (split_objects toks))"
      by simp
    from parse_document_fields [OF p] have g: "grouped D" by simp
    have "snd e = filter (\<lambda>x. objkey x = fst e) (map object_of (split_objects toks))"
      if "e \<in> set D" for e
    proof -
      from that g have "map_of D (fst e) = Some (snd e)"
        using grouped_lookup [of D "fst e" "snd e"] by simp
      then show ?thesis unfolding D by (simp add: map_of_aggregate split: if_splits)
    qed
    then show ?thesis
      using keys_aggregate [of "map object_of (split_objects toks)"]
        mset_aggregate [of "map object_of (split_objects toks)"]
      by (simp add: D)
  qed
  have 2: "parse ''Zone, 1;Building;zone, 2;Zone, 1;'' =
     Inr [(codepoints ''ZONE'', [[''Zone'', ''1''], [''zone'', ''2''], [''Zone'', ''1'']]),
          (codepoints ''BUILDING'', [[''Building'']])]"
    by code_simp
  have 3: "parse ([CHR 0xE9] @ '';a;'' @ [CHR 0xC9] @ '';'') =
     Inr [([201], [[[CHR 0xE9]], [[CHR 0xC9]]]), (codepoints ''A'', [[''a'']])]"
    by code_simp
  from 1 2 3 show ?thesis by blast
qed

text \<open>
  The theorem at \<^verbatim>\<open>b;A;a;\<close>.
\<close>

theorem key_order_is_first_appearance_witness:
  "parse ''b;A;a;'' = Inr [(codepoints ''B'', [[''b'']]), (codepoints ''A'', [[''A''], [''a'']])] \<and>
   lexer_tokens 1 ''b;A;a;'' =
     map Inr [\<lparr>ttype = VALUE, tvalue = ''b'', tlineno = 1\<rparr>,
              \<lparr>ttype = SEMICOLON, tvalue = '';'', tlineno = 1\<rparr>,
              \<lparr>ttype = VALUE, tvalue = ''A'', tlineno = 1\<rparr>,
              \<lparr>ttype = SEMICOLON, tvalue = '';'', tlineno = 1\<rparr>,
              \<lparr>ttype = VALUE, tvalue = ''a'', tlineno = 1\<rparr>,
              \<lparr>ttype = SEMICOLON, tvalue = '';'', tlineno = 1\<rparr>] \<and>
   map fst [(codepoints ''B'', [[''b'']]), (codepoints ''A'', [[''A''], [''a'']])] =
     first_occurrences (map objkey (map object_of (split_objects
       [\<lparr>ttype = VALUE, tvalue = ''b'', tlineno = 1\<rparr>,
        \<lparr>ttype = SEMICOLON, tvalue = '';'', tlineno = 1\<rparr>,
        \<lparr>ttype = VALUE, tvalue = ''A'', tlineno = 1\<rparr>,
        \<lparr>ttype = SEMICOLON, tvalue = '';'', tlineno = 1\<rparr>,
        \<lparr>ttype = VALUE, tvalue = ''a'', tlineno = 1\<rparr>,
        \<lparr>ttype = SEMICOLON, tvalue = '';'', tlineno = 1\<rparr>]))) \<and>
   mset (concat (map snd [(codepoints ''B'', [[''b'']]), (codepoints ''A'', [[''A''], [''a'']])])) =
     mset (map object_of (split_objects
       [\<lparr>ttype = VALUE, tvalue = ''b'', tlineno = 1\<rparr>,
        \<lparr>ttype = SEMICOLON, tvalue = '';'', tlineno = 1\<rparr>,
        \<lparr>ttype = VALUE, tvalue = ''A'', tlineno = 1\<rparr>,
        \<lparr>ttype = SEMICOLON, tvalue = '';'', tlineno = 1\<rparr>,
        \<lparr>ttype = VALUE, tvalue = ''a'', tlineno = 1\<rparr>,
        \<lparr>ttype = SEMICOLON, tvalue = '';'', tlineno = 1\<rparr>]))"
proof -
  let ?toks = "[\<lparr>ttype = VALUE, tvalue = ''b'', tlineno = 1\<rparr>,
              \<lparr>ttype = SEMICOLON, tvalue = '';'', tlineno = 1\<rparr>,
              \<lparr>ttype = VALUE, tvalue = ''A'', tlineno = 1\<rparr>,
              \<lparr>ttype = SEMICOLON, tvalue = '';'', tlineno = 1\<rparr>,
              \<lparr>ttype = VALUE, tvalue = ''a'', tlineno = 1\<rparr>,
              \<lparr>ttype = SEMICOLON, tvalue = '';'', tlineno = 1\<rparr>]"
  let ?D = "[(codepoints ''B'', [[''b'']]), (codepoints ''A'', [[''A''], [''a'']])]"
  have p: "parse ''b;A;a;'' = Inr ?D" by code_simp
  have t: "lexer_tokens 1 ''b;A;a;'' = map Inr ?toks" by code_simp
  have h: "parse ''b;A;a;'' = Inr ?D \<and> lexer_tokens 1 ''b;A;a;'' = map Inr ?toks"
    using p t by blast
  note th = key_order_is_first_appearance [where s = "''b;A;a;''" and D = ?D and toks = ?toks,
      THEN conjunct1, THEN mp, OF h]
  from th h show ?thesis by blast
qed

section \<open>White space\<close>



section \<open>Empty field values\<close>

text \<open>
  C10. A field written as a lone carriage return is a \<open>VALUE\<close> token, and stripping it
  leaves the empty string: a successful parse can return an empty field value.
\<close>

theorem empty_field_value:
  "parse (''Material,'' @ [CR] @ '',0.5;'') =
     Inr [(codepoints ''MATERIAL'', [[''Material'', [], ''0.5'']])]"
  by code_simp

end
